theory Spec2Isabelle
  imports Complex_Main
begin

section \<open>Numeric values, exceptions and traces\<close>

text \<open>
  The numerical methods of \<^verbatim>\<open>metodos/\<close> work on Python floats. Parameters supplied by the
  caller (sample lists, interval bounds, step sizes, evaluation points) are modelled by
  \<^typ>\<open>real\<close>: finite floats with exact arithmetic. Values produced by the evaluated
  function may also be \<^verbatim>\<open>nan\<close> or \<^verbatim>\<open>inf\<close>; they are modelled by \<open>pyfloat\<close>, whose
  arithmetic is exact on finite values and follows the IEEE rules on the special values.
  Rounding is not modelled. Overflow is modelled where a property depends on it, in the
  arithmetic of \<^verbatim>\<open>linear_interpolate\<close>; elsewhere finite arithmetic is exact.
\<close>

datatype pyfloat = Fin real | PInf | NInf | NaN

fun np_isnan :: "pyfloat \<Rightarrow> bool" where
  "np_isnan NaN = True"
| "np_isnan _ = False"

fun np_isinf :: "pyfloat \<Rightarrow> bool" where
  "np_isinf PInf = True"
| "np_isinf NInf = True"
| "np_isinf _ = False"

fun fneg :: "pyfloat \<Rightarrow> pyfloat" where
  "fneg (Fin a) = Fin (- a)"
| "fneg PInf = NInf"
| "fneg NInf = PInf"
| "fneg NaN = NaN"

fun fadd :: "pyfloat \<Rightarrow> pyfloat \<Rightarrow> pyfloat" where
  "fadd (Fin a) (Fin b) = Fin (a + b)"
| "fadd NaN _ = NaN"
| "fadd _ NaN = NaN"
| "fadd PInf NInf = NaN"
| "fadd NInf PInf = NaN"
| "fadd PInf _ = PInf"
| "fadd _ PInf = PInf"
| "fadd NInf _ = NInf"
| "fadd _ NInf = NInf"

definition fsub :: "pyfloat \<Rightarrow> pyfloat \<Rightarrow> pyfloat" where
  "fsub u v = fadd u (fneg v)"

text \<open>The sign of a non-zero product or quotient with an infinite operand.\<close>

definition signed_inf :: "bool \<Rightarrow> pyfloat" where
  "signed_inf positive = (if positive then PInf else NInf)"

fun fmul :: "pyfloat \<Rightarrow> pyfloat \<Rightarrow> pyfloat" where
  "fmul (Fin a) (Fin b) = Fin (a * b)"
| "fmul NaN _ = NaN"
| "fmul _ NaN = NaN"
| "fmul (Fin a) PInf = (if a = 0 then NaN else signed_inf (0 < a))"
| "fmul (Fin a) NInf = (if a = 0 then NaN else signed_inf (a < 0))"
| "fmul PInf (Fin b) = (if b = 0 then NaN else signed_inf (0 < b))"
| "fmul NInf (Fin b) = (if b = 0 then NaN else signed_inf (b < 0))"
| "fmul PInf PInf = PInf"
| "fmul NInf NInf = PInf"
| "fmul PInf NInf = NInf"
| "fmul NInf PInf = NInf"

text \<open>
  Division of a value by a finite scalar. Every divisor in the modelled code is a
  positive constant or a validated positive step, so the divisor is a \<^typ>\<open>real\<close>;
  a zero divisor follows numpy (\<^verbatim>\<open>nan\<close> or \<^verbatim>\<open>inf\<close>).
\<close>

fun fdiv :: "pyfloat \<Rightarrow> real \<Rightarrow> pyfloat" where
  "fdiv (Fin a) d =
     (if d = 0 then (if a = 0 then NaN else signed_inf (0 < a)) else Fin (a / d))"
| "fdiv NaN d = NaN"
| "fdiv PInf d = signed_inf (0 \<le> d)"
| "fdiv NInf d = signed_inf (d < 0)"

text \<open>
  Every \<^verbatim>\<open>raise\<close> of the source is a \<^verbatim>\<open>ValueError\<close> with a formatted message. A
  message is modelled by one constructor per raise site, carrying the values the
  f-string interpolates. An exception caught and re-raised with \<^verbatim>\<open>str(e)\<close> in the new
  message carries the caught exception. The messages (accents of the source left out):
  \<^item> \<open>EmptyLists\<close>: \<^verbatim>\<open>Las listas x e y no pueden estar vacias\<close>
  \<^item> \<open>LengthMismatch\<close>: \<^verbatim>\<open>x y y deben tener la misma longitud. x: {len(x)}, y: {len(y)}\<close>
  \<^item> \<open>TooFewPoints\<close>: \<^verbatim>\<open>Se requieren al menos 2 puntos para interpolacion\<close>
  \<^item> \<open>DuplicateX\<close>: \<^verbatim>\<open>Los valores de x deben ser unicos (no duplicados)\<close>
  \<^item> \<open>InvalidX\<close>, \<open>InvalidY\<close>: \<^verbatim>\<open>x[{i}] = {val} no es un numero valido\<close> (and \<^verbatim>\<open>y[{i}]\<close>)
  \<^item> \<open>EmptyQuery\<close>: \<^verbatim>\<open>xq no puede estar vacio\<close>
  \<^item> \<open>DivZeroNewton\<close>: \<^verbatim>\<open>Division por cero en diferencias divididas: x[{i+j}] ~ x[{i}]\<close>
  \<^item> \<open>NodesCoeffsMismatch\<close>: \<^verbatim>\<open>x_nodes y coefficients deben tener la misma longitud\<close>
  \<^item> \<open>DivZeroLagrange\<close>: \<^verbatim>\<open>Division por cero en Lagrange: x[{i}] ~ x[{j}]\<close>
  \<^item> \<open>EmptyFunction\<close>: \<^verbatim>\<open>La funcion no puede estar vacia\<close>
  \<^item> \<open>NonNumericValue\<close>: \<^verbatim>\<open>La funcion no devuelve valores numericos validos\<close>
  \<^item> \<open>ParseFailed\<close>: \<^verbatim>\<open>Error al parsear la funcion '{func_str}': {str(e)}\<close>
  \<^item> \<open>InvalidLower\<close>, \<open>InvalidUpper\<close>: \<^verbatim>\<open>Limite inferior 'a' no valido: {a}\<close> (and \<^verbatim>\<open>superior 'b'\<close>)
  \<^item> \<open>LowerNotLess\<close>: \<^verbatim>\<open>El limite inferior debe ser menor al superior: {a} >= {b}\<close>
  \<^item> \<open>NonPositiveN\<close>: \<^verbatim>\<open>Numero de subdivisiones debe ser entero positivo: {n}\<close>
  \<^item> \<open>TooLargeN\<close>: \<^verbatim>\<open>Numero de subdivisiones demasiado grande: {n} > 10000\<close>
  \<^item> \<open>InvalidPoint\<close>: \<^verbatim>\<open>Punto de evaluacion 'x' no valido: {x}\<close>
  \<^item> \<open>NonPositiveH\<close>: \<^verbatim>\<open>Paso 'h' debe ser positivo: {h}\<close>
  \<^item> \<open>TooLargeH\<close>: \<^verbatim>\<open>Paso 'h' demasiado grande, puede causar errores: {h}\<close>
  \<^item> \<open>TooSmallH\<close>: \<^verbatim>\<open>Paso 'h' demasiado pequeno, puede causar errores numericos: {h}\<close>
  \<^item> \<open>InvalidOrder\<close>: \<^verbatim>\<open>Orden de derivada debe ser 1, 2, 3 o 4: {order}\<close>
  \<^item> \<open>UnstableResult\<close>: \<^verbatim>\<open>El calculo resulto en {derivative}. Intenta con un h diferente.\<close>
  \<^item> \<open>DiffFailed\<close>: \<^verbatim>\<open>Error al calcular derivada hacia adelante: {str(e)}\<close> (and
    \<^verbatim>\<open>hacia atras\<close>, \<^verbatim>\<open>centrada\<close>)

  \<open>Raised\<close> is an exception of a library the code calls (sympy, numpy).
\<close>

datatype direction = Adelante | Atras | Centrada

datatype pyerror =
    ValueError message
  | ZeroDivisionError
  | UnboundLocalError
  | IndexError
  | Raised string
and message =
    EmptyLists
  | LengthMismatch nat nat
  | TooFewPoints
  | DuplicateX
  | InvalidX nat real
  | InvalidY nat real
  | EmptyQuery
  | DivZeroNewton nat nat
  | NodesCoeffsMismatch
  | DivZeroLagrange nat nat
  | EmptyFunction
  | NonNumericValue
  | ParseFailed string pyerror
  | InvalidLower real
  | InvalidUpper real
  | LowerNotLess real real
  | NonPositiveN int
  | TooLargeN int
  | InvalidPoint real
  | NonPositiveH real
  | TooLargeH real
  | TooSmallH real
  | InvalidOrder int
  | UnstableResult pyfloat
  | DiffFailed direction pyerror

text \<open>A function that may raise returns \<open>pyerror + 'a\<close>; \<open>ebind\<close> sequences two steps.\<close>

definition ebind :: "pyerror + 'a \<Rightarrow> ('a \<Rightarrow> pyerror + 'b) \<Rightarrow> pyerror + 'b" where
  "ebind m f = (case m of Inl e \<Rightarrow> Inl e | Inr v \<Rightarrow> f v)"

text \<open>A \<^verbatim>\<open>for\<close> loop over a list with a state; a raise in the body leaves the loop.\<close>

fun for_each :: "'i list \<Rightarrow> ('s \<Rightarrow> 'i \<Rightarrow> pyerror + 's) \<Rightarrow> 's \<Rightarrow> pyerror + 's" where
  "for_each [] body s = Inr s"
| "for_each (i # rest) body s =
     (case body s i of Inl e \<Rightarrow> Inl e | Inr s' \<Rightarrow> for_each rest body s')"

text \<open>A list comprehension \<^verbatim>\<open>[f(x) for x in xs]\<close> whose body may raise.\<close>

fun map_err :: "('a \<Rightarrow> pyerror + 'b) \<Rightarrow> 'a list \<Rightarrow> pyerror + 'b list" where
  "map_err f [] = Inr []"
| "map_err f (x # xs) =
     (case f x of Inl e \<Rightarrow> Inl e
      | Inr v \<Rightarrow> (case map_err f xs of Inl e \<Rightarrow> Inl e | Inr vs \<Rightarrow> Inr (v # vs)))"

text \<open>
  A trace step is a Python dict with string keys, kept as an association list in
  insertion order. Formatted description strings are kept as the template used and the
  values formatted into it:
  \<^item> \<open>StepSize b a n h\<close>: \<^verbatim>\<open>h = (b-a)/n = ({b}-{a})/{n} = {h}\<close>
  \<^item> \<open>PointLabel i xi\<close>: \<^verbatim>\<open>x_{i} = {xi:.6f}\<close>
  \<^item> \<open>LastPoint b\<close>: \<^verbatim>\<open>x_n = {b}\<close>
  \<^item> \<open>TrapezoidRule\<close>: \<^verbatim>\<open>Integral ~ h/2 * [f(a) + 2*SUM f(xi) + f(b)]\<close>
  \<^item> \<open>TrapezoidSubst h fa s fb\<close>: \<^verbatim>\<open>{h}/2 * [{fa:.6f} + 2*{s:.6f} + {fb:.6f}]\<close>
  \<^item> \<open>Simpson38Rule\<close>: \<^verbatim>\<open>Aplicando formula de Simpson 3/8\<close>
  \<^item> \<open>GaussNodes n\<close>: \<^verbatim>\<open>Nodos de Gauss-Legendre para n={n}\<close>
  \<^item> \<open>EvalLabel k\<close>: \<^verbatim>\<open>eval_{k}\<close>
  \<^item> \<open>GaussRule\<close>: \<^verbatim>\<open>Integral = (b-a)/2 * SUM(wi * f(xi))\<close>
\<close>

datatype fstring =
    StepSize real real int real
  | PointLabel nat real
  | LastPoint real
  | TrapezoidRule
  | TrapezoidSubst real pyfloat pyfloat pyfloat
  | Simpson38Rule
  | GaussNodes int
  | EvalLabel nat
  | GaussRule

datatype jvalue =
    JInt int
  | JStr string
  | JFloat pyfloat
  | JList "real list"
  | JText fstring

type_synonym step = "(string \<times> jvalue) list"

text \<open>
  The formula string returned by a finite-difference method is a literal chosen by the
  method and the order; it is kept as that pair.
\<close>

datatype formula = Formula direction int

type_synonym pyfunc = "real \<Rightarrow> pyerror + pyfloat"

section \<open>The expression evaluator\<close>

text \<open>
  \<^verbatim>\<open>_parse_function\<close> hands the cleaned string to sympy (\<^verbatim>\<open>sympify\<close>, then
  \<^verbatim>\<open>lambdify\<close>), which is not part of the repository: the parameter \<open>sympify\<close> stands
  for that pair of calls. It either raises or returns the callable, which itself either
  raises or returns a float at each argument (so the \<^verbatim>\<open>isinstance\<close> test of the probe value
  always passes). Every exception inside the \<^verbatim>\<open>try\<close> block, also the \<^verbatim>\<open>ValueError\<close> of the
  probe, is re-raised as the parse error. The expression string is taken to be ASCII, and
  \<^verbatim>\<open>strip\<close> removes the ASCII characters Python counts as whitespace.
\<close>

definition py_isspace :: "char \<Rightarrow> bool" where
  "py_isspace c = (c \<in> set [CHR 0x09, CHR 0x0A, CHR 0x0B, CHR 0x0C, CHR 0x0D,
                            CHR 0x1C, CHR 0x1D, CHR 0x1E, CHR 0x1F, CHR 0x20])"

definition strip :: "string \<Rightarrow> string" where
  "strip s = rev (dropWhile py_isspace (rev (dropWhile py_isspace s)))"

definition replace_caret :: "string \<Rightarrow> string" where
  "replace_caret s = concat (map (\<lambda>c. if c = CHR ''^'' then ''**'' else [c]) s)"

definition parse_function :: "(string \<Rightarrow> pyerror + pyfunc) \<Rightarrow> string \<Rightarrow> pyerror + pyfunc" where
  "parse_function sympify func_str =
     (if func_str = [] \<or> strip func_str = [] then Inl (ValueError EmptyFunction)
      else
        let func_str = replace_caret (strip func_str) in
        (case sympify func_str of
           Inl e \<Rightarrow> Inl (ValueError (ParseFailed func_str e))
         | Inr func \<Rightarrow>
             (case func 1 of
                Inl e \<Rightarrow> Inl (ValueError (ParseFailed func_str e))
              | Inr test_val \<Rightarrow>
                  if np_isnan test_val then
                    (if \<not> np_isinf test_val
                     then Inl (ValueError (ParseFailed func_str (ValueError NonNumericValue)))
                     else Inr func)
                  else Inr func)))"

section \<open>Integration\<close>

definition validate_integration_params :: "real \<Rightarrow> real \<Rightarrow> int \<Rightarrow> pyerror + unit" where
  "validate_integration_params a b n =
     (if np_isnan (Fin a) \<or> np_isinf (Fin a) then Inl (ValueError (InvalidLower a))
      else if np_isnan (Fin b) \<or> np_isinf (Fin b) then Inl (ValueError (InvalidUpper b))
      else if a \<ge> b then Inl (ValueError (LowerNotLess a b))
      else if n < 1 then Inl (ValueError (NonPositiveN n))
      else if n > 10000 then Inl (ValueError (TooLargeN n))
      else Inr ())"

text \<open>\<^verbatim>\<open>range(start, stop, step)\<close> for non-negative bounds and a positive step.\<close>

definition py_range :: "nat \<Rightarrow> nat \<Rightarrow> nat \<Rightarrow> nat list" where
  "py_range start stop step =
     map (\<lambda>k. start + k * step) [0..<(stop - start + step - 1) div step]"

text \<open>\<^verbatim>\<open>sum(...)\<close> starts from the integer 0 and adds from the left.\<close>

definition py_sum :: "pyfloat list \<Rightarrow> pyfloat" where
  "py_sum vs = foldl fadd (Fin 0) vs"

text \<open>Indexing a list or array; out of range raises.\<close>

definition nth_err :: "'a list \<Rightarrow> nat \<Rightarrow> pyerror + 'a" where
  "nth_err xs i = (if i < length xs then Inr (xs ! i) else Inl IndexError)"

subsection \<open>Composite trapezoid\<close>

definition trapecio_step :: "pyfunc \<Rightarrow> real \<Rightarrow> real \<Rightarrow> pyfloat \<times> step list \<Rightarrow> nat
    \<Rightarrow> pyerror + (pyfloat \<times> step list)" where
  "trapecio_step func a h st i =
     (case st of (sum_intermediate, steps) \<Rightarrow>
        let xi = a + real i * h in
        ebind (func xi) (\<lambda>fxi.
          Inr (fadd sum_intermediate fxi,
               if i \<le> 5
               then steps @ [[(''step'', JInt (int i + 1)), (''description'', JText (PointLabel i xi)),
                              (''x'', JFloat (Fin xi)), (''fx'', JFloat fxi)]]
               else steps)))"

definition trapecio_compuesto ::
    "(string \<Rightarrow> pyerror + pyfunc) \<Rightarrow> string \<Rightarrow> real \<Rightarrow> real \<Rightarrow> int
      \<Rightarrow> pyerror + (pyfloat \<times> step list)" where
  "trapecio_compuesto sympify func_str a b n =
     ebind (validate_integration_params a b n) (\<lambda>_.
     ebind (parse_function sympify func_str) (\<lambda>func.
       let h = (b - a) / real_of_int n in
       ebind (func a) (\<lambda>fa.
       ebind (func b) (\<lambda>fb.
         let steps = [[(''step'', JInt 1), (''description'', JText (StepSize b a n h)),
                       (''x'', JFloat (Fin a)), (''fx'', JFloat fa)]] in
         ebind (for_each [1..<nat n] (trapecio_step func a h) (Fin 0, steps))
           (\<lambda>(sum_intermediate, steps).
             let steps = steps @ [[(''step'', JStr ''final''), (''description'', JText (LastPoint b)),
                                   (''x'', JFloat (Fin b)), (''fx'', JFloat fb)]];
                 result = fdiv (fmul (Fin h)
                            (fadd (fadd fa (fmul (Fin 2) sum_intermediate)) fb)) 2;
                 steps = steps @ [[(''step'', JStr ''result''), (''description'', JText TrapezoidRule),
                                   (''formula'', JText (TrapezoidSubst h fa sum_intermediate fb)),
                                   (''result'', JFloat result)]]
             in Inr (result, steps))))))"

subsection \<open>Composite Simpson 1/3\<close>

text \<open>
  The body of \<^verbatim>\<open>simpson_13_compuesto\<close> after validation and the parity adjustment of \<open>n\<close>.
  \<^verbatim>\<open>f_vals\<close> has \<open>n + 1\<close> entries, and every index read is at most \<open>n\<close>.
\<close>

definition simpson_13_compute ::
    "(string \<Rightarrow> pyerror + pyfunc) \<Rightarrow> string \<Rightarrow> real \<Rightarrow> real \<Rightarrow> int
      \<Rightarrow> pyerror + (pyfloat \<times> step list)" where
  "simpson_13_compute sympify func_str a b n =
     ebind (parse_function sympify func_str) (\<lambda>func.
       let h = (b - a) / real_of_int n;
           x_vals = map (\<lambda>i. a + real i * h) [0..<nat n + 1] in
       ebind (map_err func x_vals) (\<lambda>f_vals.
         let steps = [[(''step'', JInt 1), (''description'', JText (StepSize b a n h)),
                       (''n_adjusted'', JInt n)]];
             sum_odd = py_sum (map (\<lambda>i. f_vals ! i) (py_range 1 (nat n) 2));
             sum_even = py_sum (map (\<lambda>i. f_vals ! i) (py_range 2 (nat n) 2));
             result = fdiv (fmul (Fin h)
                        (fadd (fadd (fadd (f_vals ! 0) (fmul (Fin 4) sum_odd))
                                 (fmul (Fin 2) sum_even)) (f_vals ! nat n))) 3;
             steps = steps @ [[(''step'', JStr ''calculation''), (''f_a'', JFloat (f_vals ! 0)),
                               (''f_b'', JFloat (f_vals ! nat n)), (''sum_odd'', JFloat sum_odd),
                               (''sum_even'', JFloat sum_even), (''result'', JFloat result)]]
         in Inr (result, steps)))"

definition simpson_13_compuesto ::
    "(string \<Rightarrow> pyerror + pyfunc) \<Rightarrow> string \<Rightarrow> real \<Rightarrow> real \<Rightarrow> int
      \<Rightarrow> pyerror + (pyfloat \<times> step list)" where
  "simpson_13_compuesto sympify func_str a b n =
     ebind (validate_integration_params a b n) (\<lambda>_.
       let n = (if n mod 2 \<noteq> 0 then n + 1 else n) in
       simpson_13_compute sympify func_str a b n)"

subsection \<open>Composite Simpson 3/8\<close>

definition simpson_38_step :: "pyfunc \<Rightarrow> real \<Rightarrow> real \<Rightarrow> pyfloat \<Rightarrow> nat \<Rightarrow> pyerror + pyfloat" where
  "simpson_38_step func a h total_acc i =
     (let xi = a + real i * h in
      ebind (func xi) (\<lambda>fxi.
        if i mod 3 = 0 then Inr (fadd total_acc (fmul (Fin 2) fxi))
        else Inr (fadd total_acc (fmul (Fin 3) fxi))))"

text \<open>The body of \<^verbatim>\<open>simpson_38_compuesto\<close> after validation and the rounding of \<open>n\<close>.\<close>

definition simpson_38_compute ::
    "(string \<Rightarrow> pyerror + pyfunc) \<Rightarrow> string \<Rightarrow> real \<Rightarrow> real \<Rightarrow> int
      \<Rightarrow> pyerror + (pyfloat \<times> step list)" where
  "simpson_38_compute sympify func_str a b n =
     ebind (parse_function sympify func_str) (\<lambda>func.
       let h = (b - a) / real_of_int n;
           steps = [[(''step'', JInt 1), (''description'', JText (StepSize b a n h)),
                     (''n_adjusted'', JInt n)]] in
       ebind (func a) (\<lambda>fa.
       ebind (func b) (\<lambda>fb.
         let total_acc = fadd fa fb in
         ebind (for_each [1..<nat n] (simpson_38_step func a h) total_acc) (\<lambda>total_acc.
           let result = fdiv (fmul (Fin (3 * h)) total_acc) 8;
               steps = steps @ [[(''step'', JStr ''result''), (''description'', JText Simpson38Rule),
                                 (''result'', JFloat result)]]
           in Inr (result, steps)))))"

definition simpson_38_compuesto ::
    "(string \<Rightarrow> pyerror + pyfunc) \<Rightarrow> string \<Rightarrow> real \<Rightarrow> real \<Rightarrow> int
      \<Rightarrow> pyerror + (pyfloat \<times> step list)" where
  "simpson_38_compuesto sympify func_str a b n =
     ebind (validate_integration_params a b n) (\<lambda>_.
       let n = (if n mod 3 \<noteq> 0 then ((n div 3) + 1) * 3 else n) in
       simpson_38_compute sympify func_str a b n)"

subsection \<open>Gauss-Legendre quadrature\<close>

text \<open>
  The tabulated nodes and weights, as written in the source. For \<open>5 < n\<close> the source calls
  \<^verbatim>\<open>numpy.polynomial.legendre.leggauss\<close>, which is not part of the repository: the
  parameter \<open>leggauss\<close> stands for it.

  The nodes are the entries of a numpy array: \<^verbatim>\<open>transformed_nodes[i]\<close> is an
  \<^verbatim>\<open>np.float64\<close>, not a Python float. On such an argument the lambdified callable need not
  behave as on the Python floats of the other variants and of the probe in
  \<^verbatim>\<open>_parse_function\<close>: \<^verbatim>\<open>1/x\<close> raises \<^verbatim>\<open>ZeroDivisionError\<close> at the Python float \<^verbatim>\<open>0.0\<close> and
  returns \<^verbatim>\<open>inf\<close> (with a warning) at \<^verbatim>\<open>np.float64(0.0)\<close>. What the callable does on numpy
  scalars is decided by sympy and numpy: the parameter \<open>numpy_call\<close> stands for it, and
  \<open>numpy_call func xi\<close> is the call \<^verbatim>\<open>func(xi)\<close> with an \<^verbatim>\<open>np.float64\<close> argument.
\<close>

definition gauss_data :: "int \<Rightarrow> (real list \<times> real list) option" where
  "gauss_data n =
     (if n = 1 then Some ([0.0], [2.0])
      else if n = 2 then Some ([- 0.5773502692, 0.5773502692], [1.0, 1.0])
      else if n = 3 then Some ([- 0.7745966692, 0.0, 0.7745966692],
                               [0.5555555556, 0.8888888889, 0.5555555556])
      else if n = 4 then Some ([- 0.8611363116, - 0.3399810436, 0.3399810436, 0.8611363116],
                               [0.3478548451, 0.6521451549, 0.6521451549, 0.3478548451])
      else if n = 5 then Some ([- 0.9061798459, - 0.5384693101, 0.0, 0.5384693101, 0.9061798459],
                               [0.2369268851, 0.4786286705, 0.5688888889, 0.4786286705,
                                0.2369268851])
      else None)"

definition gauss_step :: "(pyfunc \<Rightarrow> pyfunc) \<Rightarrow> pyfunc \<Rightarrow> real list \<Rightarrow> real list
    \<Rightarrow> pyfloat \<times> step list \<Rightarrow> nat \<Rightarrow> pyerror + (pyfloat \<times> step list)" where
  "gauss_step numpy_call func transformed_nodes weights st i =
     (case st of (integral_sum, steps) \<Rightarrow>
        ebind (nth_err transformed_nodes i) (\<lambda>xi.
        ebind (numpy_call func xi) (\<lambda>fxi.
        ebind (nth_err weights i) (\<lambda>w.
          let contribution = fmul (Fin w) fxi in
          Inr (fadd integral_sum contribution,
               if i < 5
               then steps @ [[(''step'', JText (EvalLabel (i + 1))), (''x'', JFloat (Fin xi)),
                              (''fx'', JFloat fxi), (''weight'', JFloat (Fin w)),
                              (''contribution'', JFloat contribution)]]
               else steps)))))"

definition gauss_legendre ::
    "(int \<Rightarrow> real list \<times> real list) \<Rightarrow> (pyfunc \<Rightarrow> pyfunc) \<Rightarrow> (string \<Rightarrow> pyerror + pyfunc)
      \<Rightarrow> string \<Rightarrow> real \<Rightarrow> real \<Rightarrow> int \<Rightarrow> pyerror + (pyfloat \<times> step list)" where
  "gauss_legendre leggauss numpy_call sympify func_str a b n =
     ebind (validate_integration_params a b n) (\<lambda>_.
       let n = (if n > 10 then 10 else n) in
       ebind (parse_function sympify func_str) (\<lambda>func.
         let (nodes, weights) = (case gauss_data n of None \<Rightarrow> leggauss n | Some d \<Rightarrow> d);
             transformed_nodes = map (\<lambda>t. (b - a) / 2 * t + (a + b) / 2) nodes;
             steps = [[(''step'', JStr ''nodes''), (''description'', JText (GaussNodes n)),
                       (''nodes'', JList transformed_nodes), (''weights'', JList weights)]] in
         ebind (for_each [0..<nat n] (gauss_step numpy_call func transformed_nodes weights)
                  (Fin 0, steps))
           (\<lambda>(integral_sum, steps).
             let result = fmul (Fin ((b - a) / 2)) integral_sum;
                 steps = steps @ [[(''step'', JStr ''result''), (''description'', JText GaussRule),
                                   (''result'', JFloat result)]]
             in Inr (result, steps))))"

section \<open>Differentiation\<close>

definition validate_derivative_params :: "real \<Rightarrow> real \<Rightarrow> int \<Rightarrow> pyerror + unit" where
  "validate_derivative_params x h order =
     (if np_isnan (Fin x) \<or> np_isinf (Fin x) then Inl (ValueError (InvalidPoint x))
      else if h \<le> 0 \<or> np_isnan (Fin h) \<or> np_isinf (Fin h) then Inl (ValueError (NonPositiveH h))
      else if h > 1.0 then Inl (ValueError (TooLargeH h))
      else if h < 1 / 10 ^ 12 then Inl (ValueError (TooSmallH h))
      else if order < 1 \<or> order > 4 then Inl (ValueError (InvalidOrder order))
      else Inr ())"

text \<open>\<^verbatim>\<open>try: ... except Exception as e: raise ValueError(f"...{str(e)}")\<close>\<close>

definition try_except :: "pyerror + 'a \<Rightarrow> (pyerror \<Rightarrow> pyerror) \<Rightarrow> pyerror + 'a" where
  "try_except body handler = (case body of Inl e \<Rightarrow> Inl (handler e) | Inr v \<Rightarrow> Inr v)"

text \<open>
  The check every method makes on the value it computed, and the \<^verbatim>\<open>return\<close>. The message
  of the error is \<^verbatim>\<open>El calculo resulto en {derivative}. Intenta con un h diferente.\<close>
  (with accents in the source).
\<close>

definition check_derivative :: "pyfloat \<Rightarrow> formula \<Rightarrow> pyerror + (pyfloat \<times> formula)" where
  "check_derivative derivative formula_str =
     (if np_isnan derivative \<or> np_isinf derivative
      then Inl (ValueError (UnstableResult derivative))
      else Inr (derivative, formula_str))"

text \<open>The \<^verbatim>\<open>if order == 1: ... elif order == 4: ...\<close> chain of \<^verbatim>\<open>diff_adelante\<close>.\<close>

definition adelante_stencil :: "pyfunc \<Rightarrow> real \<Rightarrow> real \<Rightarrow> int \<Rightarrow> pyerror + pyfloat" where
  "adelante_stencil func x h order =
     (if order = 1 then
        ebind (func x) (\<lambda>fx. ebind (func (x + h)) (\<lambda>fx_h.
          Inr (fdiv (fsub fx_h fx) h)))
      else if order = 2 then
        ebind (func x) (\<lambda>fx. ebind (func (x + h)) (\<lambda>fx_h. ebind (func (x + 2 * h)) (\<lambda>fx_2h.
          Inr (fdiv (fadd (fsub fx_2h (fmul (Fin 2) fx_h)) fx) (h ^ 2)))))
      else if order = 3 then
        ebind (func x) (\<lambda>fx. ebind (func (x + h)) (\<lambda>fx_h. ebind (func (x + 2 * h)) (\<lambda>fx_2h.
        ebind (func (x + 3 * h)) (\<lambda>fx_3h.
          Inr (fdiv (fsub (fadd (fsub fx_3h (fmul (Fin 3) fx_2h)) (fmul (Fin 3) fx_h)) fx)
                 (h ^ 3))))))
      else if order = 4 then
        ebind (func x) (\<lambda>fx. ebind (func (x + h)) (\<lambda>fx_h. ebind (func (x + 2 * h)) (\<lambda>fx_2h.
        ebind (func (x + 3 * h)) (\<lambda>fx_3h. ebind (func (x + 4 * h)) (\<lambda>fx_4h.
          Inr (fdiv (fadd (fsub (fadd (fsub fx_4h (fmul (Fin 4) fx_3h)) (fmul (Fin 6) fx_2h))
                             (fmul (Fin 4) fx_h)) fx)
                 (h ^ 4)))))))
      else Inl UnboundLocalError)"

definition diff_adelante ::
    "(string \<Rightarrow> pyerror + pyfunc) \<Rightarrow> string \<Rightarrow> real \<Rightarrow> real \<Rightarrow> int
      \<Rightarrow> pyerror + (pyfloat \<times> formula)" where
  "diff_adelante sympify func_str x h order =
     ebind (validate_derivative_params x h order) (\<lambda>_.
     ebind (parse_function sympify func_str) (\<lambda>func.
       try_except
         (ebind (adelante_stencil func x h order) (\<lambda>derivative.
            check_derivative derivative (Formula Adelante order)))
         (\<lambda>e. ValueError (DiffFailed Adelante e))))"

text \<open>The chain of \<^verbatim>\<open>diff_atras\<close>.\<close>

definition atras_stencil :: "pyfunc \<Rightarrow> real \<Rightarrow> real \<Rightarrow> int \<Rightarrow> pyerror + pyfloat" where
  "atras_stencil func x h order =
     (if order = 1 then
        ebind (func x) (\<lambda>fx. ebind (func (x - h)) (\<lambda>fx_h.
          Inr (fdiv (fsub fx fx_h) h)))
      else if order = 2 then
        ebind (func x) (\<lambda>fx. ebind (func (x - h)) (\<lambda>fx_h. ebind (func (x - 2 * h)) (\<lambda>fx_2h.
          Inr (fdiv (fadd (fsub fx (fmul (Fin 2) fx_h)) fx_2h) (h ^ 2)))))
      else if order = 3 then
        ebind (func x) (\<lambda>fx. ebind (func (x - h)) (\<lambda>fx_h. ebind (func (x - 2 * h)) (\<lambda>fx_2h.
        ebind (func (x - 3 * h)) (\<lambda>fx_3h.
          Inr (fdiv (fsub (fadd (fsub fx (fmul (Fin 3) fx_h)) (fmul (Fin 3) fx_2h)) fx_3h)
                 (h ^ 3))))))
      else if order = 4 then
        ebind (func x) (\<lambda>fx. ebind (func (x - h)) (\<lambda>fx_h. ebind (func (x - 2 * h)) (\<lambda>fx_2h.
        ebind (func (x - 3 * h)) (\<lambda>fx_3h. ebind (func (x - 4 * h)) (\<lambda>fx_4h.
          Inr (fdiv (fadd (fsub (fadd (fsub fx (fmul (Fin 4) fx_h)) (fmul (Fin 6) fx_2h))
                             (fmul (Fin 4) fx_3h)) fx_4h)
                 (h ^ 4)))))))
      else Inl UnboundLocalError)"

definition diff_atras ::
    "(string \<Rightarrow> pyerror + pyfunc) \<Rightarrow> string \<Rightarrow> real \<Rightarrow> real \<Rightarrow> int
      \<Rightarrow> pyerror + (pyfloat \<times> formula)" where
  "diff_atras sympify func_str x h order =
     ebind (validate_derivative_params x h order) (\<lambda>_.
     ebind (parse_function sympify func_str) (\<lambda>func.
       try_except
         (ebind (atras_stencil func x h order) (\<lambda>derivative.
            check_derivative derivative (Formula Atras order)))
         (\<lambda>e. ValueError (DiffFailed Atras e))))"

text \<open>The chain of \<^verbatim>\<open>diff_centrada\<close>.\<close>

definition centrada_stencil :: "pyfunc \<Rightarrow> real \<Rightarrow> real \<Rightarrow> int \<Rightarrow> pyerror + pyfloat" where
  "centrada_stencil func x h order =
     (if order = 1 then
        ebind (func (x + h)) (\<lambda>fx_pos. ebind (func (x - h)) (\<lambda>fx_neg.
          Inr (fdiv (fsub fx_pos fx_neg) (2 * h))))
      else if order = 2 then
        ebind (func x) (\<lambda>fx. ebind (func (x + h)) (\<lambda>fx_pos. ebind (func (x - h)) (\<lambda>fx_neg.
          Inr (fdiv (fadd (fsub fx_pos (fmul (Fin 2) fx)) fx_neg) (h ^ 2)))))
      else if order = 3 then
        ebind (func (x + 2 * h)) (\<lambda>fx_2pos. ebind (func (x + h)) (\<lambda>fx_pos.
        ebind (func (x - h)) (\<lambda>fx_neg. ebind (func (x - 2 * h)) (\<lambda>fx_2neg.
          Inr (fdiv (fsub (fadd (fsub fx_2pos (fmul (Fin 2) fx_pos)) (fmul (Fin 2) fx_neg)) fx_2neg)
                 (2 * h ^ 3))))))
      else if order = 4 then
        ebind (func x) (\<lambda>fx. ebind (func (x + h)) (\<lambda>fx_pos. ebind (func (x - h)) (\<lambda>fx_neg.
        ebind (func (x + 2 * h)) (\<lambda>fx_2pos. ebind (func (x - 2 * h)) (\<lambda>fx_2neg.
          Inr (fdiv (fadd (fsub (fadd (fsub fx_2pos (fmul (Fin 4) fx_pos)) (fmul (Fin 6) fx))
                             (fmul (Fin 4) fx_neg)) fx_2neg)
                 (h ^ 4)))))))
      else Inl UnboundLocalError)"

definition diff_centrada ::
    "(string \<Rightarrow> pyerror + pyfunc) \<Rightarrow> string \<Rightarrow> real \<Rightarrow> real \<Rightarrow> int
      \<Rightarrow> pyerror + (pyfloat \<times> formula)" where
  "diff_centrada sympify func_str x h order =
     ebind (validate_derivative_params x h order) (\<lambda>_.
     ebind (parse_function sympify func_str) (\<lambda>func.
       try_except
         (ebind (centrada_stencil func x h order) (\<lambda>derivative.
            check_derivative derivative (Formula Centrada order)))
         (\<lambda>e. ValueError (DiffFailed Centrada e))))"

section \<open>Interpolation\<close>

text \<open>Division of two Python floats raises on a zero divisor.\<close>

definition py_div :: "real \<Rightarrow> real \<Rightarrow> pyerror + real" where
  "py_div u v = (if v = 0 then Inl ZeroDivisionError else Inr (u / v))"

text \<open>One of the two loops of \<^verbatim>\<open>_validate_input\<close> that reject \<^verbatim>\<open>nan\<close> and \<^verbatim>\<open>inf\<close> entries.\<close>

definition check_valid_numbers :: "(nat \<Rightarrow> real \<Rightarrow> message) \<Rightarrow> real list \<Rightarrow> pyerror + unit" where
  "check_valid_numbers msg vs =
     for_each (enumerate 0 vs)
       (\<lambda>_ (i, val). if np_isnan (Fin val) \<or> np_isinf (Fin val)
                     then Inl (ValueError (msg i val)) else Inr ()) ()"

definition validate_input :: "real list \<Rightarrow> real list \<Rightarrow> pyerror + unit" where
  "validate_input x y =
     (if x = [] \<or> y = [] then Inl (ValueError EmptyLists)
      else if length x \<noteq> length y then Inl (ValueError (LengthMismatch (length x) (length y)))
      else if length x < 2 then Inl (ValueError TooFewPoints)
      else if card (set x) \<noteq> length x then Inl (ValueError DuplicateX)
      else ebind (check_valid_numbers InvalidX x) (\<lambda>_. check_valid_numbers InvalidY y))"

text \<open>\<^verbatim>\<open>list.sort\<close> is stable, as \<^const>\<open>sort_key\<close> is.\<close>

definition sort_points :: "real list \<Rightarrow> real list \<Rightarrow> real list \<times> real list" where
  "sort_points x y = (let paired = sort_key fst (zip x y) in (map fst paired, map snd paired))"

subsection \<open>Piecewise linear\<close>

text \<open>
  The arithmetic of \<^verbatim>\<open>linear_interpolate\<close> is modelled with overflow: an operation on
  Python floats whose exact result reaches \<open>2^1024 - 2^970\<close> in magnitude (the least
  magnitude that binary64 round-to-nearest takes to infinity) gives \<^verbatim>\<open>inf\<close>, and the special
  values then follow the IEEE rules. A result below that magnitude is kept exact (rounding
  inside the range is not modelled). A true division by the float zero raises.
\<close>

definition overflow_threshold :: real where
  "overflow_threshold = 2 ^ 1024 - 2 ^ 970"

definition fl :: "real \<Rightarrow> pyfloat" where
  "fl r = (if overflow_threshold \<le> r then PInf
           else if r \<le> - overflow_threshold then NInf
           else Fin r)"

fun overflow :: "pyfloat \<Rightarrow> pyfloat" where
  "overflow (Fin r) = fl r"
| "overflow PInf = PInf"
| "overflow NInf = NInf"
| "overflow NaN = NaN"

definition py_add :: "pyfloat \<Rightarrow> pyfloat \<Rightarrow> pyfloat" where
  "py_add u v = overflow (fadd u v)"

definition py_sub :: "pyfloat \<Rightarrow> pyfloat \<Rightarrow> pyfloat" where
  "py_sub u v = overflow (fsub u v)"

definition py_mul :: "pyfloat \<Rightarrow> pyfloat \<Rightarrow> pyfloat" where
  "py_mul u v = overflow (fmul u v)"

text \<open>The quotient by a divisor that is not zero.\<close>

fun fquot :: "pyfloat \<Rightarrow> pyfloat \<Rightarrow> pyfloat" where
  "fquot (Fin a) (Fin b) = Fin (a / b)"
| "fquot NaN _ = NaN"
| "fquot _ NaN = NaN"
| "fquot (Fin a) PInf = Fin 0"
| "fquot (Fin a) NInf = Fin 0"
| "fquot PInf (Fin b) = signed_inf (0 < b)"
| "fquot NInf (Fin b) = signed_inf (b < 0)"
| "fquot PInf PInf = NaN"
| "fquot PInf NInf = NaN"
| "fquot NInf PInf = NaN"
| "fquot NInf NInf = NaN"

definition py_truediv :: "pyfloat \<Rightarrow> pyfloat \<Rightarrow> pyerror + pyfloat" where
  "py_truediv u v = (if v = Fin 0 then Inl ZeroDivisionError else Inr (overflow (fquot u v)))"

text \<open>
  The inner \<^verbatim>\<open>for i in range(len(x_sorted) - 1)\<close> with its \<^verbatim>\<open>break\<close>: the value assigned
  to \<^verbatim>\<open>yi\<close> by the first bracketing segment, or \<open>None\<close> when no segment brackets \<open>xi\<close>.
\<close>

fun linear_segment :: "real list \<Rightarrow> real list \<Rightarrow> real \<Rightarrow> nat list \<Rightarrow> pyerror + pyfloat option" where
  "linear_segment x_sorted y_sorted xi [] = Inr None"
| "linear_segment x_sorted y_sorted xi (i # rest) =
     (if x_sorted ! i \<le> xi \<and> xi \<le> x_sorted ! (i + 1) then
        ebind (py_truediv (py_sub (Fin xi) (Fin (x_sorted ! i)))
                 (py_sub (Fin (x_sorted ! (i + 1))) (Fin (x_sorted ! i)))) (\<lambda>t.
          Inr (Some (py_add (py_mul (py_sub (Fin 1) t) (Fin (y_sorted ! i)))
                       (py_mul t (Fin (y_sorted ! (i + 1)))))))
      else linear_segment x_sorted y_sorted xi rest)"

text \<open>
  The body of \<^verbatim>\<open>for xi in xq\<close>. The variable \<^verbatim>\<open>yi\<close> lives across iterations: it is
  part of the loop state, unbound (\<open>None\<close>) before the first assignment.
\<close>

definition linear_query :: "real list \<Rightarrow> real list \<Rightarrow> pyfloat list \<times> pyfloat option \<Rightarrow> real
    \<Rightarrow> pyerror + (pyfloat list \<times> pyfloat option)" where
  "linear_query x_sorted y_sorted st xi =
     (case st of (result, yi) \<Rightarrow>
        ebind
          (if xi < x_sorted ! 0 \<or> xi > last x_sorted then
             (if xi < x_sorted ! 0 then
                ebind (py_truediv (py_sub (Fin (y_sorted ! 1)) (Fin (y_sorted ! 0)))
                         (py_sub (Fin (x_sorted ! 1)) (Fin (x_sorted ! 0)))) (\<lambda>slope.
                  Inr (Some (py_add (Fin (y_sorted ! 0))
                               (py_mul slope (py_sub (Fin xi) (Fin (x_sorted ! 0)))))))
              else
                ebind (py_truediv
                         (py_sub (Fin (last y_sorted)) (Fin (y_sorted ! (length y_sorted - 2))))
                         (py_sub (Fin (last x_sorted)) (Fin (x_sorted ! (length x_sorted - 2)))))
                  (\<lambda>slope.
                  Inr (Some (py_add (Fin (last y_sorted))
                               (py_mul slope (py_sub (Fin xi) (Fin (last x_sorted))))))))
           else
             ebind (linear_segment x_sorted y_sorted xi [0..<length x_sorted - 1]) (\<lambda>found.
               Inr (case found of Some v \<Rightarrow> Some v | None \<Rightarrow> yi)))
          (\<lambda>yi. case yi of None \<Rightarrow> Inl UnboundLocalError
                | Some v \<Rightarrow> Inr (result @ [v], yi)))"

definition linear_interpolate :: "real list \<Rightarrow> real list \<Rightarrow> real list \<Rightarrow> pyerror + pyfloat list" where
  "linear_interpolate x y xq =
     ebind (validate_input x y) (\<lambda>_.
       let (x_sorted, y_sorted) = sort_points x y in
       if xq = [] then Inl (ValueError EmptyQuery)
       else ebind (for_each xq (linear_query x_sorted y_sorted) ([], None)) (\<lambda>(result, yi).
              Inr result))"

subsection \<open>Newton divided differences\<close>

text \<open>The table \<open>F\<close> is a list of rows; \<^verbatim>\<open>F[i][j] = v\<close> updates row \<open>i\<close> in place.\<close>

definition set_entry :: "real list list \<Rightarrow> nat \<Rightarrow> nat \<Rightarrow> real \<Rightarrow> real list list" where
  "set_entry F i j v = F[i := (F ! i)[j := v]]"

definition newton_entry :: "real list \<Rightarrow> nat \<Rightarrow> real list list \<Rightarrow> nat \<Rightarrow> pyerror + real list list" where
  "newton_entry x_sorted j F i =
     (let denominator = x_sorted ! (i + j) - x_sorted ! i in
      if \<bar>denominator\<bar> < 1 / 10 ^ 15 then Inl (ValueError (DivZeroNewton (i + j) i))
      else Inr (set_entry F i j ((F ! (i + 1) ! (j - 1) - F ! i ! (j - 1)) / denominator)))"

definition newton_column :: "real list \<Rightarrow> nat \<Rightarrow> real list list \<Rightarrow> nat \<Rightarrow> pyerror + real list list" where
  "newton_column x_sorted n F j = for_each [0..<n - j] (newton_entry x_sorted j) F"

definition newton_divided_diffs :: "real list \<Rightarrow> real list \<Rightarrow> pyerror + (real list \<times> real list)" where
  "newton_divided_diffs x y =
     ebind (validate_input x y) (\<lambda>_.
       let (x_sorted, y_sorted) = sort_points x y;
           n = length x_sorted;
           F = replicate n (replicate n 0.0);
           F = foldl (\<lambda>F i. set_entry F i 0 (y_sorted ! i)) F [0..<n] in
       ebind (for_each [1..<n] (newton_column x_sorted n) F) (\<lambda>F.
         let coefficients = map (\<lambda>j. F ! 0 ! j) [0..<n] in
         Inr (x_sorted, coefficients)))"

text \<open>
  The body of \<^verbatim>\<open>for xi in xq\<close> in \<^verbatim>\<open>eval_newton_poly\<close>. With \<open>n = 0\<close> the read
  \<^verbatim>\<open>coefficients[n - 1]\<close> is out of range. \<^verbatim>\<open>range(n - 2, -1, -1)\<close> runs from \<open>n - 2\<close>
  down to \<open>0\<close>.
\<close>

definition newton_query :: "real list \<Rightarrow> real list \<Rightarrow> real list \<Rightarrow> real \<Rightarrow> pyerror + real list" where
  "newton_query x_nodes coefficients result xi =
     (let n = length coefficients in
      if n = 0 then Inl IndexError
      else
        let v = foldl (\<lambda>v i. v * (xi - x_nodes ! i) + coefficients ! i)
                  (coefficients ! (n - 1)) (rev [0..<n - 1])
        in Inr (result @ [v]))"

definition eval_newton_poly :: "real list \<Rightarrow> real list \<Rightarrow> real list \<Rightarrow> pyerror + real list" where
  "eval_newton_poly x_nodes coefficients xq =
     (if length x_nodes \<noteq> length coefficients then Inl (ValueError NodesCoeffsMismatch)
      else for_each xq (newton_query x_nodes coefficients) [])"

text \<open>
  The Newton variant as its caller runs it (\<^verbatim>\<open>app.py\<close>, \<^verbatim>\<open>api_interpolate\<close>):
  \<^verbatim>\<open>x_nodes, coef = newton_divided_diffs(x, y)\<close>, then
  \<^verbatim>\<open>eval_newton_poly(x_nodes, coef, xq)\<close>.
\<close>

definition newton_interpolate :: "real list \<Rightarrow> real list \<Rightarrow> real list \<Rightarrow> pyerror + real list" where
  "newton_interpolate x y xq =
     ebind (newton_divided_diffs x y) (\<lambda>(x_nodes, coef). eval_newton_poly x_nodes coef xq)"

subsection \<open>Lagrange\<close>

definition lagrange_factor :: "real list \<Rightarrow> real \<Rightarrow> nat \<Rightarrow> real \<Rightarrow> nat \<Rightarrow> pyerror + real" where
  "lagrange_factor x xi i li j =
     (if i \<noteq> j then
        let denominator = x ! i - x ! j in
        if \<bar>denominator\<bar> < 1 / 10 ^ 15 then Inl (ValueError (DivZeroLagrange i j))
        else Inr (li * ((xi - x ! j) / denominator))
      else Inr li)"

definition lagrange_term :: "real list \<Rightarrow> real list \<Rightarrow> real \<Rightarrow> nat \<Rightarrow> real \<Rightarrow> nat \<Rightarrow> pyerror + real" where
  "lagrange_term x y xi n total_acc i =
     ebind (for_each [0..<n] (lagrange_factor x xi i) 1.0) (\<lambda>li.
       Inr (total_acc + y ! i * li))"

definition lagrange_query :: "real list \<Rightarrow> real list \<Rightarrow> nat \<Rightarrow> real list \<Rightarrow> real \<Rightarrow> pyerror + real list" where
  "lagrange_query x y n result xi =
     ebind (for_each [0..<n] (lagrange_term x y xi n) 0.0) (\<lambda>total_acc.
       Inr (result @ [total_acc]))"

definition lagrange_interpolate :: "real list \<Rightarrow> real list \<Rightarrow> real list \<Rightarrow> pyerror + real list" where
  "lagrange_interpolate x y xq =
     ebind (validate_input x y) (\<lambda>_.
       let n = length x in
       for_each xq (lagrange_query x y n) [])"

subsection \<open>Natural cubic spline\<close>

text \<open>
  \<^verbatim>\<open>numpy.linalg.solve\<close> is not part of the repository: the parameter \<open>solve\<close> stands for
  it. It raises on a singular matrix. Divisions whose operands are numpy values do not
  raise; the others are divisions of Python floats. The spline's own arithmetic is exact;
  with fewer than three points the result is that of \<^verbatim>\<open>linear_interpolate\<close>.
\<close>

definition spline_row :: "real list \<Rightarrow> real list \<Rightarrow> nat \<Rightarrow> real list list \<times> real list \<Rightarrow> nat
    \<Rightarrow> pyerror + (real list list \<times> real list)" where
  "spline_row h y_sorted n st i =
     (case st of (A, b) \<Rightarrow>
        let A = (if i > 0 then set_entry A i (i - 1) (h ! i) else A);
            A = set_entry A i i (2 * (h ! i + h ! (i + 1)));
            A = (if i < n - 3 then set_entry A i (i + 1) (h ! (i + 1)) else A) in
        ebind (py_div (y_sorted ! (i + 2) - y_sorted ! (i + 1)) (h ! (i + 1))) (\<lambda>d1.
        ebind (py_div (y_sorted ! (i + 1) - y_sorted ! i) (h ! i)) (\<lambda>d0.
          Inr (A, b[i := 6 * (d1 - d0)]))))"

fun spline_segment :: "real list \<Rightarrow> real list \<Rightarrow> real list \<Rightarrow> real list \<Rightarrow> real \<Rightarrow> nat list
    \<Rightarrow> pyerror + real option" where
  "spline_segment x_sorted y_sorted h second_derivs xi [] = Inr None"
| "spline_segment x_sorted y_sorted h second_derivs xi (i # rest) =
     (if x_sorted ! i \<le> xi \<and> xi \<le> x_sorted ! (i + 1) then
        let dx = xi - x_sorted ! i in
        ebind (py_div (y_sorted ! (i + 1) - y_sorted ! i) (h ! i)) (\<lambda>d.
          Inr (Some (y_sorted ! i
                 + dx * (d - h ! i * (2 * second_derivs ! i + second_derivs ! (i + 1)) / 6)
                 + dx ^ 2 * second_derivs ! i / 2
                 + dx ^ 3 * (second_derivs ! (i + 1) - second_derivs ! i) / (6 * h ! i))))
      else spline_segment x_sorted y_sorted h second_derivs xi rest)"

definition spline_query :: "real list \<Rightarrow> real list \<Rightarrow> real list \<Rightarrow> real list
    \<Rightarrow> real list \<times> real option \<Rightarrow> real \<Rightarrow> pyerror + (real list \<times> real option)" where
  "spline_query x_sorted y_sorted h second_derivs st xi =
     (case st of (result, yi) \<Rightarrow>
        ebind
          (if xi \<le> x_sorted ! 0 then
             ebind (py_div (y_sorted ! 1 - y_sorted ! 0) (h ! 0)) (\<lambda>slope.
               Inr (Some (y_sorted ! 0 + slope * (xi - x_sorted ! 0))))
           else if xi \<ge> last x_sorted then
             ebind (py_div (last y_sorted - y_sorted ! (length y_sorted - 2)) (last h)) (\<lambda>slope.
               Inr (Some (last y_sorted + slope * (xi - last x_sorted))))
           else
             ebind (spline_segment x_sorted y_sorted h second_derivs xi [0..<length x_sorted - 1])
               (\<lambda>found. Inr (case found of Some v \<Rightarrow> Some v | None \<Rightarrow> yi)))
          (\<lambda>yi. case yi of None \<Rightarrow> Inl UnboundLocalError
                | Some v \<Rightarrow> Inr (result @ [v], yi)))"

text \<open>The segment widths \<^verbatim>\<open>h = [x_sorted[i + 1] - x_sorted[i] for i in range(n - 1)]\<close>.\<close>

definition spline_widths :: "real list \<Rightarrow> real list" where
  "spline_widths x_sorted =
     map (\<lambda>i. x_sorted ! (i + 1) - x_sorted ! i) [0..<length x_sorted - 1]"

text \<open>The tridiagonal system: \<open>A\<close> and \<open>b\<close> start as zeros and the loop fills them row by row.\<close>

definition spline_system :: "real list \<Rightarrow> real list \<Rightarrow> nat \<Rightarrow> pyerror + (real list list \<times> real list)" where
  "spline_system h y_sorted n =
     (let A = replicate (n - 2) (replicate (n - 2) 0);
          b = replicate (n - 2) 0 in
      for_each [0..<n - 2] (spline_row h y_sorted n) (A, b))"

definition cubic_spline_interpolate ::
    "(real list list \<Rightarrow> real list \<Rightarrow> pyerror + real list) \<Rightarrow> real list \<Rightarrow> real list \<Rightarrow> real list
      \<Rightarrow> pyerror + pyfloat list" where
  "cubic_spline_interpolate solve x y xq =
     ebind (validate_input x y) (\<lambda>_.
       let (x_sorted, y_sorted) = sort_points x y;
           n = length x_sorted in
       if n < 3 then linear_interpolate x_sorted y_sorted xq
       else
         let h = spline_widths x_sorted in
         ebind (spline_system h y_sorted n) (\<lambda>(A, b).
         ebind (if n > 2 then
                  ebind (solve A b) (\<lambda>second_derivs_inner.
                    if length second_derivs_inner = n - 2
                    then Inr (0 # second_derivs_inner @ [0])
                    else Inl (Raised ''ValueError: could not broadcast input array''))
                else Inr (replicate n 0)) (\<lambda>second_derivs.
         ebind (for_each xq (spline_query x_sorted y_sorted h second_derivs) ([], None))
           (\<lambda>(result, yi). Inr (map Fin result)))))"

section \<open>The formulas of the specification\<close>

text \<open>
  Newton evaluation as the specification words it: \<^verbatim>\<open>value = c[n-1]; for i from n-2 down
  to 0: value = value*(xi - x_sorted[i]) + c[i]\<close>. \<open>horner_from\<close> \<open>k\<close> \<open>v\<close> performs the steps
  \<open>i = k - 1, ..., 0\<close> on the value \<open>v\<close>.
\<close>

fun horner_from :: "real list \<Rightarrow> real list \<Rightarrow> real \<Rightarrow> nat \<Rightarrow> real \<Rightarrow> real" where
  "horner_from c x_sorted xi 0 v = v"
| "horner_from c x_sorted xi (Suc i) v =
     horner_from c x_sorted xi i (v * (xi - x_sorted ! i) + c ! i)"

definition nested_newton_value :: "real list \<Rightarrow> real list \<Rightarrow> real \<Rightarrow> real" where
  "nested_newton_value c x_sorted xi =
     horner_from c x_sorted xi (length c - 1) (c ! (length c - 1))"

text \<open>
  Composite Simpson 1/3 as the specification words it:
  \<^verbatim>\<open>result = h(f_0 + 4 SUM_odd f_i + 2 SUM_even f_i + f_n)/3\<close> with \<^verbatim>\<open>h = (b - a)/n\<close>.
\<close>

definition simpson_13_rule :: "(real \<Rightarrow> real) \<Rightarrow> real \<Rightarrow> real \<Rightarrow> int \<Rightarrow> real" where
  "simpson_13_rule f a b n =
     (let h = (b - a) / real_of_int n; fi = (\<lambda>i. f (a + real i * h)) in
      h * (fi 0 + 4 * (\<Sum>i \<leftarrow> filter odd [1..<nat n]. fi i)
                + 2 * (\<Sum>i \<leftarrow> filter even [1..<nat n]. fi i) + fi (nat n)) / 3)"

text \<open>
  Composite Simpson 3/8 as the specification words it:
  \<^verbatim>\<open>total = f(a) + f(b) + SUM_{i=1}^{n-1} w_i f(x_i)\<close> where \<^verbatim>\<open>w_i = 2 if i % 3 == 0 else 3\<close>;
  \<^verbatim>\<open>result = 3h total/8\<close>.
\<close>

definition simpson_38_rule :: "(real \<Rightarrow> real) \<Rightarrow> real \<Rightarrow> real \<Rightarrow> int \<Rightarrow> real" where
  "simpson_38_rule f a b n =
     (let h = (b - a) / real_of_int n;
          w = (\<lambda>i::nat. if i mod 3 = 0 then 2 else 3) in
      3 * h * (f a + f b + (\<Sum>i \<leftarrow> [1..<nat n]. w i * f (a + real i * h))) / 8)"

section \<open>Divided differences and the interpolating polynomial\<close>

text \<open>
  The mathematics behind the Newton and Lagrange variants, over nodes \<open>u\<close> and values \<open>w\<close>
  indexed by natural numbers: the divided difference \<open>f[x_i, ..., x_{i+k}]\<close> by its
  recurrence, its closed form as a sum over the nodes, and the interpolating polynomial
  in Lagrange form over an index set.
\<close>

definition nodal_weight :: "(nat \<Rightarrow> real) \<Rightarrow> nat set \<Rightarrow> nat \<Rightarrow> real" where
  "nodal_weight u A m = (\<Prod>l \<in> A - {m}. u m - u l)"

definition dd_sum :: "(nat \<Rightarrow> real) \<Rightarrow> (nat \<Rightarrow> real) \<Rightarrow> nat set \<Rightarrow> real" where
  "dd_sum u w A = (\<Sum>m \<in> A. w m / nodal_weight u A m)"

definition lagrange_sum :: "(nat \<Rightarrow> real) \<Rightarrow> (nat \<Rightarrow> real) \<Rightarrow> nat set \<Rightarrow> real \<Rightarrow> real" where
  "lagrange_sum u w A q = (\<Sum>m \<in> A. w m * (\<Prod>l \<in> A - {m}. (q - u l) / (u m - u l)))"

fun divided_difference :: "(nat \<Rightarrow> real) \<Rightarrow> (nat \<Rightarrow> real) \<Rightarrow> nat \<Rightarrow> nat \<Rightarrow> real" where
  "divided_difference u w i 0 = w i"
| "divided_difference u w i (Suc k) =
     (divided_difference u w (i + 1) k - divided_difference u w i k) / (u (i + Suc k) - u i)"

text \<open>
  No two nodes are closer than \<open>1e-15\<close>: the condition under which neither variant raises
  its division-by-zero error.
\<close>

definition separated :: "real list \<Rightarrow> bool" where
  "separated x \<longleftrightarrow> (\<forall>i < length x. \<forall>j < length x. i \<noteq> j \<longrightarrow> \<not> \<bar>x ! i - x ! j\<bar> < 1 / 10 ^ 15)"

text \<open>
  The state of the table \<open>F\<close> of \<^verbatim>\<open>newton_divided_diffs\<close> once its columns below \<open>m\<close> are
  computed: an \<open>n\<close> by \<open>n\<close> table whose entry \<open>F[i][k]\<close> is the divided difference of the
  nodes \<open>i, ..., i + k\<close>.
\<close>

definition table_filled :: "real list \<Rightarrow> real list \<Rightarrow> nat \<Rightarrow> nat \<Rightarrow> real list list \<Rightarrow> bool" where
  "table_filled xs ys n m F \<longleftrightarrow>
     length F = n \<and> (\<forall>i < n. length (F ! i) = n)
   \<and> (\<forall>k < m. \<forall>i. i + k < n \<longrightarrow> F ! i ! k = divided_difference ((!) xs) ((!) ys) i k)"

section \<open>Sample values and node gaps within the float range\<close>

text \<open>
  A sample value is a finite float: its magnitude is below the overflow threshold. The
  gap below a node \<open>v\<close> is its difference to the next smaller node of \<open>x\<close>, if there is one;
  it is within the range when that difference does not overflow.
\<close>

definition finite_float :: "real \<Rightarrow> bool" where
  "finite_float r \<longleftrightarrow> \<bar>r\<bar> < overflow_threshold"

definition gap_below_in_range :: "real list \<Rightarrow> real \<Rightarrow> bool" where
  "gap_below_in_range x v \<longleftrightarrow>
     (\<forall>a \<in> set x. a < v \<and> (\<forall>b \<in> set x. \<not> (a < b \<and> b < v)) \<longrightarrow> v - a < overflow_threshold)"

section \<open>Sampled points of the quadrature rules\<close>

text \<open>
  The points at which each integration variant evaluates the integrand, in the order of
  evaluation, and what it means for a call to pass on the integrand's failures: the call
  returns a result exactly when the integrand returns a value (of any kind) at every
  point, and an error of the call is an error the integrand raised at one of them.
\<close>

definition trapecio_samples :: "real \<Rightarrow> real \<Rightarrow> int \<Rightarrow> real list" where
  "trapecio_samples a b n =
     (let h = (b - a) / real_of_int n in a # b # map (\<lambda>i. a + real i * h) [1..<nat n])"

definition simpson_13_samples :: "real \<Rightarrow> real \<Rightarrow> int \<Rightarrow> real list" where
  "simpson_13_samples a b n =
     (let n = (if n mod 2 \<noteq> 0 then n + 1 else n); h = (b - a) / real_of_int n in
      map (\<lambda>i. a + real i * h) [0..<nat n + 1])"

definition simpson_38_samples :: "real \<Rightarrow> real \<Rightarrow> int \<Rightarrow> real list" where
  "simpson_38_samples a b n =
     (let n = (if n mod 3 \<noteq> 0 then ((n div 3) + 1) * 3 else n); h = (b - a) / real_of_int n in
      a # b # map (\<lambda>i. a + real i * h) [1..<nat n])"

definition gauss_samples :: "(int \<Rightarrow> real list \<times> real list) \<Rightarrow> real \<Rightarrow> real \<Rightarrow> int \<Rightarrow> real list" where
  "gauss_samples leggauss a b n =
     (let n = (if n > 10 then 10 else n);
          nodes = fst (case gauss_data n of None \<Rightarrow> leggauss n | Some d \<Rightarrow> d) in
      map (\<lambda>t. (b - a) / 2 * t + (a + b) / 2) (take (nat n) nodes))"

definition propagates :: "pyfunc \<Rightarrow> real list \<Rightarrow> pyerror + 'a \<Rightarrow> bool" where
  "propagates func samples r \<longleftrightarrow>
     (\<forall>e. r = Inl e \<longrightarrow> (\<exists>p \<in> set samples. func p = Inl e))
   \<and> ((\<exists>v. r = Inr v) \<longleftrightarrow> (\<forall>p \<in> set samples. \<exists>v. func p = Inr v))"

section \<open>Properties\<close>

subsection \<open>Basic facts about the control structures\<close>

lemma validate_integration_params_ok:
  "validate_integration_params a b n = Inr () \<longleftrightarrow> a < b \<and> 1 \<le> n \<and> n \<le> 10000"
  by (auto simp: validate_integration_params_def)

lemma ebind_Inr [simp]: "ebind (Inr v) f = f v"
  by (simp add: ebind_def)

lemma ebind_Inl [simp]: "ebind (Inl e) f = Inl e"
  by (simp add: ebind_def)

lemma simpson_38_round_up: "(if n mod 3 \<noteq> 0 then ((n div 3) + 1) * 3 else n) = (n + 2) div 3 * (3::int)"
  by presburger

lemma simpson_38_compute_n_adjusted:
  "simpson_38_compute sympify fs a b m = Inr (r, steps) \<Longrightarrow>
     map_of (hd steps) ''n_adjusted'' = Some (JInt m)"
  by (auto simp: simpson_38_compute_def ebind_def Let_def split: sum.splits)

lemma simpson_13_compute_n_adjusted:
  "simpson_13_compute sympify fs a b m = Inr (r, steps) \<Longrightarrow>
     map_of (hd steps) ''n_adjusted'' = Some (JInt m)"
  by (auto simp: simpson_13_compute_def ebind_def Let_def split: sum.splits)

lemma for_each_append:
  "for_each (xs @ ys) body s = ebind (for_each xs body s) (for_each ys body)"
  by (induction xs arbitrary: s) (simp_all split: sum.splits)

lemma map_err_total: "(\<And>x. f x = Inr (g x)) \<Longrightarrow> map_err f xs = Inr (map g xs)"
  by (induction xs) simp_all

lemma foldl_fadd_Fin: "foldl fadd (Fin t) (map Fin xs) = Fin (t + sum_list xs)"
  by (induction xs arbitrary: t) (simp_all add: add.assoc)

lemma py_sum_Fin: "py_sum (map Fin xs) = Fin (sum_list xs)"
  by (simp add: py_sum_def foldl_fadd_Fin)

lemma py_sum_Fin_map: "py_sum (map (\<lambda>i. Fin (G i)) rs) = Fin (sum_list (map G rs))"
  using py_sum_Fin[of "map G rs"] by (simp add: comp_def)

lemma distinct_py_range: "0 < step \<Longrightarrow> distinct (py_range start stop step)"
  by (auto simp: py_range_def distinct_map inj_on_def)

lemma set_py_range_odd: "set (py_range 1 n 2) = {i \<in> {1..<n}. odd i}"
proof -
  have "\<And>i. 1 \<le> i \<Longrightarrow> i < n \<Longrightarrow> odd i \<Longrightarrow> i \<in> (\<lambda>k. Suc (k * 2)) ` {0..<n div 2}"
  proof -
    fix i :: nat assume "1 \<le> i" "i < n" "odd i"
    then have "i = Suc ((i div 2) * 2)" "i div 2 < n div 2" by presburger+
    then show "i \<in> (\<lambda>k. Suc (k * 2)) ` {0..<n div 2}" by (metis atLeastLessThan_iff image_eqI zero_le)
  qed
  moreover have "\<And>k. k < n div 2 \<Longrightarrow> Suc (k * 2) < n" by presburger
  ultimately show ?thesis by (auto simp: py_range_def)
qed

lemma set_py_range_even: "set (py_range 2 n 2) = {i \<in> {1..<n}. even i}"
proof -
  have "\<And>i. 1 \<le> i \<Longrightarrow> i < n \<Longrightarrow> even i \<Longrightarrow> i \<in> (\<lambda>k. 2 + k * 2) ` {0..<(n - 2 + 2 - 1) div 2}"
  proof -
    fix i :: nat assume "1 \<le> i" "i < n" "even i"
    then have "i = 2 + ((i - 2) div 2) * 2" "(i - 2) div 2 < (n - 2 + 2 - 1) div 2" by presburger+
    then show "i \<in> (\<lambda>k. 2 + k * 2) ` {0..<(n - 2 + 2 - 1) div 2}" by (metis atLeastLessThan_iff image_eqI zero_le)
  qed
  moreover have "\<And>k. k < (n - 2 + 2 - 1) div 2 \<Longrightarrow> 2 + k * 2 < n" by presburger
  ultimately show ?thesis by (auto simp: py_range_def)
qed

lemma sum_list_py_range_odd:
  "sum_list (map f (py_range 1 n 2)) = (\<Sum>i \<leftarrow> filter odd [1..<n]. (f i :: real))"
  using distinct_py_range[of 2 1 n] by (simp add: sum_list_distinct_conv_sum_set set_py_range_odd del: One_nat_def)

lemma sum_list_py_range_even:
  "sum_list (map f (py_range 2 n 2)) = (\<Sum>i \<leftarrow> filter even [1..<n]. (f i :: real))"
  using distinct_py_range[of 2 2 n] by (simp add: sum_list_distinct_conv_sum_set set_py_range_even del: One_nat_def)

lemma for_each_simpson_38_fin:
  assumes "\<And>x. func x = Inr (Fin (g x))"
  shows "for_each [i..<j] (simpson_38_step func a h) (Fin t) =
         Inr (Fin (t + (\<Sum>k \<leftarrow> [i..<j]. (if k mod 3 = 0 then 2 else 3) * g (a + real k * h))))"
proof (induction j)
  case 0
  then show ?case by simp
next
  case (Suc j)
  show ?case
  proof (cases "i \<le> j")
    case True
    then show ?thesis using Suc assms
      by (simp add: for_each_append simpson_38_step_def)
  next
    case False
    then show ?thesis by simp
  qed
qed

lemma simpson_38_compute_rule:
  assumes "parse_function sympify fs = Inr func" "\<And>x. func x = Inr (Fin (g x))"
  shows "\<exists>steps. simpson_38_compute sympify fs a b m = Inr (Fin (simpson_38_rule g a b m), steps)"
  using assms
  by (simp add: simpson_38_compute_def simpson_38_rule_def Let_def for_each_simpson_38_fin[where g=g] algebra_simps)

lemma simpson_13_compute_rule:
  assumes "parse_function sympify fs = Inr func" "\<And>x. func x = Inr (Fin (g x))" "0 \<le> m"
  shows "\<exists>steps. simpson_13_compute sympify fs a b m = Inr (Fin (simpson_13_rule g a b m), steps)"
proof -
  let ?h = "(b - a) / real_of_int m"
  let ?xs = "map (\<lambda>i. a + real i * ?h) [0..<nat m + 1]"
  have fv: "map_err func ?xs = Inr (map (\<lambda>x. Fin (g x)) ?xs)"
    using assms(2) by (rule map_err_total)
  have nth: "\<And>i. i \<le> nat m \<Longrightarrow> map (\<lambda>x. Fin (g x)) ?xs ! i = Fin (g (a + real i * ?h))"
    by (simp add: nth_append less_Suc_eq_le del: upt_Suc)
  have odd: "map (\<lambda>i. map (\<lambda>x. Fin (g x)) ?xs ! i) (py_range 1 (nat m) 2)
           = map (\<lambda>i. Fin (g (a + real i * ?h))) (py_range 1 (nat m) 2)"
    by (rule map_cong[OF refl]) (use nth in \<open>simp add: set_py_range_odd del: upt_Suc map_map One_nat_def\<close>)
  have even: "map (\<lambda>i. map (\<lambda>x. Fin (g x)) ?xs ! i) (py_range 2 (nat m) 2)
           = map (\<lambda>i. Fin (g (a + real i * ?h))) (py_range 2 (nat m) 2)"
    by (rule map_cong[OF refl]) (use nth in \<open>simp add: set_py_range_even del: upt_Suc map_map One_nat_def\<close>)
  let ?fv = "map (\<lambda>x. Fin (g x)) ?xs"
  let ?E = "fdiv (fmul (Fin ?h)
              (fadd (fadd (fadd (?fv ! 0) (fmul (Fin 4) (py_sum (map (\<lambda>i. ?fv ! i) (py_range 1 (nat m) 2)))))
                       (fmul (Fin 2) (py_sum (map (\<lambda>i. ?fv ! i) (py_range 2 (nat m) 2))))) (?fv ! nat m))) 3"
  have run: "\<exists>steps. simpson_13_compute sympify fs a b m = Inr (?E, steps)"
    unfolding simpson_13_compute_def Let_def assms(1) ebind_Inr fv by blast
  have "?E = Fin (simpson_13_rule g a b m)"
    unfolding odd even py_sum_Fin_map nth[OF le0] nth[OF order_refl] simpson_13_rule_def Let_def
      sum_list_py_range_odd sum_list_py_range_even
    by simp
  with run show ?thesis by simp
qed

lemma identity_parses:
  "parse_function (\<lambda>s. Inr (\<lambda>x. Inr (Fin x))) ''x'' = Inr (\<lambda>x. Inr (Fin x))"
  by (simp add: parse_function_def strip_def py_isspace_def replace_caret_def)

lemma for_each_simpson_38_zero:
  "for_each ks (simpson_38_step (\<lambda>x. Inr (Fin 0)) a h) (Fin 0) = Inr (Fin 0)"
  by (induction ks) (simp_all add: simpson_38_step_def)

lemma zero_parses:
  "parse_function (\<lambda>s. Inr (\<lambda>x. Inr (Fin 0))) ''0'' = Inr (\<lambda>x. Inr (Fin 0))"
  by (simp add: parse_function_def strip_def py_isspace_def replace_caret_def)

lemma simpson_38_compute_zero:
  "simpson_38_compute (\<lambda>s. Inr (\<lambda>x. Inr (Fin 0))) ''0'' a b m =
     Inr (Fin 0, [[(''step'', JInt 1), (''description'', JText (StepSize b a m ((b - a) / real_of_int m))),
                   (''n_adjusted'', JInt m)],
                  [(''step'', JStr ''result''), (''description'', JText Simpson38Rule),
                   (''result'', JFloat (Fin 0))]])"
  by (simp add: simpson_38_compute_def zero_parses for_each_simpson_38_zero Let_def)

subsection \<open>Adjustment of the subdivision count (Simpson rules)\<close>

text \<open>
  Claim C4. For a valid call, \<^verbatim>\<open>simpson_13_compuesto\<close> with odd \<open>n\<close> computes with \<open>n + 1\<close>
  subdivisions and \<^verbatim>\<open>simpson_38_compuesto\<close> computes with the least multiple of 3 that
  is at least \<open>n\<close>; an \<open>n\<close> that already meets the constraint is used unchanged. The
  value used is reported in the first trace step as \<^verbatim>\<open>n_adjusted\<close>, and for an integrand
  with finite values the result is the composite rule of the specification at that value.
\<close>

theorem simpson_n_adjusted:
  assumes "validate_integration_params a b n = Inr ()"
  shows "simpson_13_compuesto sympify fs a b n
           = simpson_13_compute sympify fs a b (if odd n then n + 1 else n)
       \<and> simpson_38_compuesto sympify fs a b n
           = simpson_38_compute sympify fs a b ((n + 2) div 3 * 3)
       \<and> (\<forall>r steps. simpson_13_compuesto sympify fs a b n = Inr (r, steps) \<longrightarrow>
              map_of (hd steps) ''n_adjusted'' = Some (JInt (if odd n then n + 1 else n)))
       \<and> (\<forall>r steps. simpson_38_compuesto sympify fs a b n = Inr (r, steps) \<longrightarrow>
              map_of (hd steps) ''n_adjusted'' = Some (JInt ((n + 2) div 3 * 3)))
       \<and> 3 dvd (n + 2) div 3 * 3 \<and> n \<le> (n + 2) div 3 * 3
       \<and> (\<forall>k. n \<le> k \<and> 3 dvd k \<longrightarrow> (n + 2) div 3 * 3 \<le> k)
       \<and> (3 dvd n \<longrightarrow> (n + 2) div 3 * 3 = n)
       \<and> (\<forall>func g. parse_function sympify fs = Inr func \<and> (\<forall>x. func x = Inr (Fin (g x))) \<longrightarrow>
              (\<exists>steps. simpson_13_compuesto sympify fs a b n
                  = Inr (Fin (simpson_13_rule g a b (if odd n then n + 1 else n)), steps))
            \<and> (\<exists>steps. simpson_38_compuesto sympify fs a b n
                  = Inr (Fin (simpson_38_rule g a b ((n + 2) div 3 * 3)), steps)))"
proof -
  have rng: "1 \<le> n" using assms by (simp add: validate_integration_params_ok)
  have e13: "simpson_13_compuesto sympify fs a b n
           = simpson_13_compute sympify fs a b (if odd n then n + 1 else n)"
    using assms by (simp add: simpson_13_compuesto_def odd_iff_mod_2_eq_one)
  have e38: "simpson_38_compuesto sympify fs a b n
           = simpson_38_compute sympify fs a b ((n + 2) div 3 * 3)"
    using assms by (simp add: simpson_38_compuesto_def simpson_38_round_up del: One_nat_def)
  have t13: "\<forall>r steps. simpson_13_compuesto sympify fs a b n = Inr (r, steps) \<longrightarrow>
              map_of (hd steps) ''n_adjusted'' = Some (JInt (if odd n then n + 1 else n))"
    unfolding e13 by (blast dest: simpson_13_compute_n_adjusted)
  have t38: "\<forall>r steps. simpson_38_compuesto sympify fs a b n = Inr (r, steps) \<longrightarrow>
              map_of (hd steps) ''n_adjusted'' = Some (JInt ((n + 2) div 3 * 3))"
    unfolding e38 by (blast dest: simpson_38_compute_n_adjusted)
  have least: "3 dvd (n + 2) div 3 * 3 \<and> n \<le> (n + 2) div 3 * 3
       \<and> (\<forall>k. n \<le> k \<and> 3 dvd k \<longrightarrow> (n + 2) div 3 * 3 \<le> k)
       \<and> (3 dvd n \<longrightarrow> (n + 2) div 3 * 3 = n)"
    by presburger
  have rules: "\<forall>func g. parse_function sympify fs = Inr func \<and> (\<forall>x. func x = Inr (Fin (g x))) \<longrightarrow>
              (\<exists>steps. simpson_13_compuesto sympify fs a b n
                  = Inr (Fin (simpson_13_rule g a b (if odd n then n + 1 else n)), steps))
            \<and> (\<exists>steps. simpson_38_compuesto sympify fs a b n
                  = Inr (Fin (simpson_38_rule g a b ((n + 2) div 3 * 3)), steps))"
  proof (intro allI impI, elim conjE)
    fix func g
    assume p: "parse_function sympify fs = Inr func" and f: "\<forall>x. func x = Inr (Fin (g x))"
    have nn: "0 \<le> (if odd n then n + 1 else n)" using rng by simp
    show "(\<exists>steps. simpson_13_compuesto sympify fs a b n
                  = Inr (Fin (simpson_13_rule g a b (if odd n then n + 1 else n)), steps))
            \<and> (\<exists>steps. simpson_38_compuesto sympify fs a b n
                  = Inr (Fin (simpson_38_rule g a b ((n + 2) div 3 * 3)), steps))"
      unfolding e13 e38
      using simpson_13_compute_rule[OF p _ nn, of g a b] simpson_38_compute_rule[OF p, of g a b] f
      by blast
  qed
  from e13 e38 t13 t38 least rules show ?thesis by blast
qed

theorem simpson_n_adjusted_witness:
  "validate_integration_params 0 1 1 = Inr ()
   \<and> (\<exists>steps. simpson_13_compuesto (\<lambda>s. Inr (\<lambda>x. Inr (Fin x))) ''x'' 0 1 1 = Inr (Fin (1 / 2), steps)
          \<and> map_of (hd steps) ''n_adjusted'' = Some (JInt 2))
   \<and> (\<exists>steps. simpson_38_compuesto (\<lambda>s. Inr (\<lambda>x. Inr (Fin x))) ''x'' 0 1 1 = Inr (Fin (1 / 2), steps)
          \<and> map_of (hd steps) ''n_adjusted'' = Some (JInt 3))"
proof -
  have v: "validate_integration_params 0 1 1 = Inr ()"
    by (simp add: validate_integration_params_def)
  note th = simpson_n_adjusted[OF v, of "\<lambda>s. Inr (\<lambda>x. Inr (Fin x))" "''x''"]
  have r13: "simpson_13_rule (\<lambda>x. x) 0 1 2 = 1 / 2"
    by (simp add: simpson_13_rule_def Let_def upt_rec)
  have r38: "simpson_38_rule (\<lambda>x. x) 0 1 3 = 1 / 2"
    by (simp add: simpson_38_rule_def Let_def upt_rec)
  have f: "\<forall>x. (\<lambda>x. Inr (Fin x) :: pyerror + pyfloat) x = Inr (Fin ((\<lambda>x. x) x))" by simp
  from th have rules: "\<forall>func g. parse_function (\<lambda>s. Inr (\<lambda>x. Inr (Fin x))) ''x'' = Inr func \<and> (\<forall>x. func x = Inr (Fin (g x))) \<longrightarrow>
              (\<exists>steps. simpson_13_compuesto (\<lambda>s. Inr (\<lambda>x. Inr (Fin x))) ''x'' 0 1 1
                  = Inr (Fin (simpson_13_rule g 0 1 (if odd (1::int) then 1 + 1 else 1)), steps))
            \<and> (\<exists>steps. simpson_38_compuesto (\<lambda>s. Inr (\<lambda>x. Inr (Fin x))) ''x'' 0 1 1
                  = Inr (Fin (simpson_38_rule g 0 1 ((1 + 2) div 3 * 3)), steps))"
    by blast
  from rules[rule_format, OF conjI[OF identity_parses f]]
  obtain s13 s38 where
    a: "simpson_13_compuesto (\<lambda>s. Inr (\<lambda>x. Inr (Fin x))) ''x'' 0 1 1 = Inr (Fin (1 / 2), s13)" and
    b: "simpson_38_compuesto (\<lambda>s. Inr (\<lambda>x. Inr (Fin x))) ''x'' 0 1 1 = Inr (Fin (1 / 2), s38)"
    using r13 r38 by auto
  from th a have "map_of (hd s13) ''n_adjusted'' = Some (JInt 2)" by simp
  moreover from th b have "map_of (hd s38) ''n_adjusted'' = Some (JInt 3)" by simp
  ultimately show ?thesis using v a b by blast
qed

text \<open>
  Claim C10, as amended. \<^verbatim>\<open>simpson_38_compuesto\<close> checks the caller's \<open>n\<close> against the
  cap of 10000 before rounding it up. The rounded value, which is the one used and
  reported, exceeds the cap exactly when \<open>n = 10000\<close>, and is then 10002.
\<close>

theorem simpson_38_cap:
  assumes "validate_integration_params a b n = Inr ()"
  shows "simpson_38_compuesto sympify fs a b n = simpson_38_compute sympify fs a b ((n + 2) div 3 * 3)
       \<and> (\<forall>r steps. simpson_38_compuesto sympify fs a b n = Inr (r, steps) \<longrightarrow>
              map_of (hd steps) ''n_adjusted'' = Some (JInt ((n + 2) div 3 * 3)))
       \<and> (10000 < (n + 2) div 3 * 3 \<longleftrightarrow> n = 10000)
       \<and> (n = 10000 \<longrightarrow> (n + 2) div 3 * 3 = 10002)"
proof -
  have eq: "simpson_38_compuesto sympify fs a b n = simpson_38_compute sympify fs a b ((n + 2) div 3 * 3)"
    using assms by (simp add: simpson_38_compuesto_def simpson_38_round_up del: One_nat_def)
  have rng: "1 \<le> n \<and> n \<le> 10000" using assms by (simp add: validate_integration_params_ok)
  have "(10000 < (n + 2) div 3 * 3 \<longleftrightarrow> n = 10000)" using rng by presburger
  with eq show ?thesis by (auto dest: simpson_38_compute_n_adjusted)
qed

theorem simpson_38_cap_witness:
  "validate_integration_params 0 1 10000 = Inr () \<and>
   simpson_38_compuesto (\<lambda>s. Inr (\<lambda>x. Inr (Fin 0))) ''0'' 0 1 10000 =
     Inr (Fin 0, [[(''step'', JInt 1), (''description'', JText (StepSize 1 0 10002 (1 / 10002))),
                   (''n_adjusted'', JInt 10002)],
                  [(''step'', JStr ''result''), (''description'', JText Simpson38Rule),
                   (''result'', JFloat (Fin 0))]])"
proof -
  have v: "validate_integration_params 0 1 10000 = Inr ()"
    by (simp add: validate_integration_params_def)
  from simpson_38_cap[OF v, of "\<lambda>s. Inr (\<lambda>x. Inr (Fin 0))" "''0''"]
  have "simpson_38_compuesto (\<lambda>s. Inr (\<lambda>x. Inr (Fin 0))) ''0'' 0 1 10000
      = simpson_38_compute (\<lambda>s. Inr (\<lambda>x. Inr (Fin 0))) ''0'' 0 1 10002"
    by simp
  with v show ?thesis by (simp add: simpson_38_compute_zero)
qed

text \<open>
  Claim C10 as stated fails at \<open>n = 9998\<close>, which is valid and not a multiple of 3: the
  call runs with 9999 subdivisions, not 10002.
\<close>

theorem simpson_38_adjusted_9998_counterexample:
  "validate_integration_params 0 1 9998 = Inr () \<and> (9998::int) mod 3 \<noteq> 0 \<and>
   simpson_38_compuesto (\<lambda>s. Inr (\<lambda>x. Inr (Fin 0))) ''0'' 0 1 9998 =
     Inr (Fin 0, [[(''step'', JInt 1), (''description'', JText (StepSize 1 0 9999 (1 / 9999))),
                   (''n_adjusted'', JInt 9999)],
                  [(''step'', JStr ''result''), (''description'', JText Simpson38Rule),
                   (''result'', JFloat (Fin 0))]])"
  by (simp add: validate_integration_params_def simpson_38_compuesto_def simpson_38_compute_zero)

subsection \<open>Validation and sorting of sample sets\<close>

lemma check_valid_numbers_ok: "check_valid_numbers msg vs = Inr ()"
proof -
  have "for_each ps (\<lambda>_ (i, val). if np_isnan (Fin val) \<or> np_isinf (Fin val)
                     then Inl (ValueError (msg i val)) else Inr ()) () = Inr ()" for ps
    by (induction ps) (auto split: prod.splits)
  then show ?thesis by (simp add: check_valid_numbers_def)
qed

lemma validate_input_ok:
  "validate_input x y = Inr () \<longleftrightarrow> length x = length y \<and> 2 \<le> length x \<and> distinct x"
  by (auto simp: validate_input_def check_valid_numbers_ok card_distinct distinct_card)

lemma validate_input_duplicates:
  "\<not> distinct x \<Longrightarrow> \<exists>m. validate_input x y = Inl (ValueError m)"
  using card_distinct[of x]
  by (auto simp: validate_input_def check_valid_numbers_ok)

lemma horner_from_foldl:
  "foldl (\<lambda>v i. v * (xi - x_nodes ! i) + c ! i) v (rev [0..<k]) = horner_from c x_nodes xi k v"
  by (induction k arbitrary: v) simp_all

lemma newton_query_value:
  "c \<noteq> [] \<Longrightarrow> newton_query x_nodes c result xi = Inr (result @ [nested_newton_value c x_nodes xi])"
  by (simp add: newton_query_def nested_newton_value_def horner_from_foldl Let_def)

lemma for_each_newton_query:
  "c \<noteq> [] \<Longrightarrow> for_each xq (newton_query x_nodes c) result
      = Inr (result @ map (nested_newton_value c x_nodes) xq)"
  by (induction xq arbitrary: result) (simp_all add: newton_query_value)

lemma sort_points_zip:
  "sort_points x y = (xs, ys) \<Longrightarrow> zip xs ys = sort_key fst (zip x y)"
  by (auto simp: sort_points_def Let_def zip_map_fst_snd)

lemma sort_points_length:
  assumes "length x = length y" "sort_points x y = (xs, ys)"
  shows "length xs = length x" "length ys = length x"
  using assms by (auto simp: sort_points_def Let_def)

lemma sort_points_distinct:
  assumes "length x = length y" "distinct x" "sort_points x y = (xs, ys)"
  shows "distinct xs"
proof -
  have "distinct (map fst (zip x y))" using assms(1,2) by simp
  then have "distinct (zip x y)" "inj_on fst (set (zip x y))"
    by (simp_all add: distinct_map)
  then have "distinct (map fst (sort_key fst (zip x y)))"
    by (simp add: distinct_map)
  then show ?thesis using assms(3) by (auto simp: sort_points_def Let_def)
qed

lemma sort_points_strict:
  assumes "length x = length y" "distinct x" "sort_points x y = (xs, ys)"
  shows "sorted_wrt (<) xs"
proof -
  have "sorted xs" using assms(3) by (auto simp: sort_points_def Let_def)
  moreover have "distinct xs" by (rule sort_points_distinct[OF assms])
  ultimately show ?thesis by (simp add: strict_sorted_iff)
qed

lemma sort_points_set:
  assumes "length x = length y" "sort_points x y = (xs, ys)"
  shows "set xs = set x"
proof -
  have "xs = map fst (sort_key fst (zip x y))"
    using assms(2) by (auto simp: sort_points_def Let_def)
  then have "set xs = set (map fst (zip x y))" by simp
  also have "\<dots> = set x" using assms(1) by simp
  finally show ?thesis .
qed

lemma sort_points_nodes:
  assumes "length x = length y" "sort_points x y = (xs, ys)" "i < length x"
  shows "\<exists>k < length xs. xs ! k = x ! i \<and> ys ! k = y ! i"
proof -
  have "(x ! i, y ! i) \<in> set (zip x y)"
    using assms(1,3) by (metis in_set_zip fst_conv snd_conv)
  then have "(x ! i, y ! i) \<in> set (zip xs ys)"
    using sort_points_zip[OF assms(2)] by simp
  then show ?thesis by (auto simp: in_set_zip)
qed

lemma py_div_nonzero: "v \<noteq> 0 \<Longrightarrow> py_div u v = Inr (u / v)"
  by (simp add: py_div_def)

lemma overflow_threshold_gt_one: "1 < overflow_threshold"
proof -
  have "(2::real) ^ 970 * 2 \<le> 2 ^ 970 * 2 ^ 54" by (intro mult_left_mono) simp_all
  then have "(2::real) ^ 970 + 2 ^ 970 \<le> 2 ^ 1024" by (simp flip: power_add)
  moreover have "(1::real) < 2 ^ 970" by simp
  ultimately show ?thesis by (simp add: overflow_threshold_def)
qed

lemma overflow_threshold_gt_thirty: "30 < overflow_threshold"
proof -
  have "(2::real) ^ 970 * 2 \<le> 2 ^ 970 * 2 ^ 54" by (intro mult_left_mono) simp_all
  then have "(2::real) ^ 970 + 2 ^ 970 \<le> 2 ^ 1024" by (simp flip: power_add)
  moreover have "(2::real) ^ 5 \<le> 2 ^ 970" by (rule power_increasing) simp_all
  ultimately show ?thesis by (simp add: overflow_threshold_def)
qed

lemma fl_in_range: "\<bar>r\<bar> < overflow_threshold \<Longrightarrow> fl r = Fin r"
  by (auto simp: fl_def)

lemma fl_zero [simp]: "fl 0 = Fin 0"
  using overflow_threshold_gt_one by (simp add: fl_in_range)

lemma fl_one [simp]: "fl 1 = Fin 1"
  using overflow_threshold_gt_one by (simp add: fl_in_range)

lemma fl_positive: "0 < r \<Longrightarrow> fl r = Fin r \<or> fl r = PInf"
  by (auto simp: fl_def)

lemma py_sub_Fin [simp]: "py_sub (Fin a) (Fin b) = fl (a - b)"
  by (simp add: py_sub_def fsub_def)

lemma py_add_Fin [simp]: "py_add (Fin a) (Fin b) = fl (a + b)"
  by (simp add: py_add_def)

lemma py_mul_Fin [simp]: "py_mul (Fin a) (Fin b) = fl (a * b)"
  by (simp add: py_mul_def)

lemma py_truediv_Fin: "b \<noteq> 0 \<Longrightarrow> py_truediv (Fin a) (Fin b) = Inr (fl (a / b))"
  by (simp add: py_truediv_def)

lemma py_truediv_zero_by_positive:
  assumes "0 < d"
  shows "py_truediv (Fin 0) (fl d) = Inr (Fin 0)"
  using fl_positive[OF assms] assms by (auto simp: py_truediv_def)

lemma linear_segment_at_node:
  assumes "sorted_wrt (<) xs" "k < length xs" "1 \<le> k" "j < k"
      and "xs ! k - xs ! (k - 1) < overflow_threshold" "finite_float (ys ! k)"
  shows "linear_segment xs ys (xs ! k) [j..<length xs - 1] = Inr (Some (Fin (ys ! k)))"
  using assms(4)
proof (induction "k - j" arbitrary: j)
  case 0
  then show ?case by simp
next
  case (Suc d)
  have jn: "j < length xs - 1" using Suc.prems assms(2) by linarith
  then have upt: "[j..<length xs - 1] = j # [Suc j..<length xs - 1]" by (simp add: upt_conv_Cons)
  show ?case
  proof (cases "Suc j = k")
    case True
    have lt: "xs ! j < xs ! k" using assms(1,2) Suc.prems by (simp add: sorted_wrt_nth_less)
    have "j = k - 1" using True by simp
    then have gap: "\<bar>xs ! k - xs ! j\<bar> < overflow_threshold" using assms(5) lt by simp
    have y: "fl (ys ! k) = Fin (ys ! k)" using assms(6) by (simp add: finite_float_def fl_in_range)
    have t: "py_truediv (py_sub (Fin (xs ! k)) (Fin (xs ! j))) (py_sub (Fin (xs ! k)) (Fin (xs ! j)))
           = Inr (Fin 1)"
      using lt by (simp add: fl_in_range[OF gap] py_truediv_Fin)
    show ?thesis unfolding upt using True lt t y by simp
  next
    case False
    then have lt: "Suc j < k" using Suc.prems by linarith
    have "xs ! Suc j < xs ! k" using assms(1,2) lt by (simp add: sorted_wrt_nth_less)
    then have "\<not> xs ! k \<le> xs ! Suc j" by simp
    moreover have "linear_segment xs ys (xs ! k) [Suc j..<length xs - 1] = Inr (Some (Fin (ys ! k)))"
      using Suc.hyps(1)[of "Suc j"] Suc.hyps(2) lt by simp
    ultimately show ?thesis using upt by simp
  qed
qed

lemma linear_segment_at_first:
  assumes "sorted_wrt (<) xs" "2 \<le> length xs" "finite_float (ys ! 0)"
  shows "linear_segment xs ys (xs ! 0) [0..<length xs - 1] = Inr (Some (Fin (ys ! 0)))"
proof -
  have upt: "[0..<length xs - 1] = 0 # [Suc 0..<length xs - 1]"
    using assms(2) by (simp add: upt_conv_Cons)
  have lt: "xs ! 0 < xs ! 1" using assms by (simp add: sorted_wrt_nth_less)
  have y: "fl (ys ! 0) = Fin (ys ! 0)" using assms(3) by (simp add: finite_float_def fl_in_range)
  have t: "py_truediv (py_sub (Fin (xs ! 0)) (Fin (xs ! 0))) (py_sub (Fin (xs ! 1)) (Fin (xs ! 0)))
         = Inr (Fin 0)"
    using lt by (simp add: py_truediv_zero_by_positive)
  show ?thesis unfolding upt using lt t y by simp
qed

lemma linear_query_at_node:
  assumes "sorted_wrt (<) xs" "2 \<le> length xs" "k < length xs"
      and "1 \<le> k \<longrightarrow> xs ! k - xs ! (k - 1) < overflow_threshold" "finite_float (ys ! k)"
  shows "linear_query xs ys (result, yi) (xs ! k)
       = Inr (result @ [Fin (ys ! k)], Some (Fin (ys ! k)))"
proof -
  have srt: "sorted xs" using assms(1) by (simp add: strict_sorted_iff)
  have lo: "xs ! 0 \<le> xs ! k" using srt assms(3) by (simp add: sorted_nth_mono)
  have "xs \<noteq> []" using assms(2) by auto
  then have "last xs = xs ! (length xs - 1)" by (simp add: last_conv_nth)
  then have hi: "xs ! k \<le> last xs" using srt assms(3) by (simp add: sorted_nth_mono)
  have seg: "linear_segment xs ys (xs ! k) [0..<length xs - 1] = Inr (Some (Fin (ys ! k)))"
  proof (cases "k = 0")
    case True
    then show ?thesis using linear_segment_at_first[OF assms(1,2)] assms(5) by simp
  next
    case False
    then show ?thesis using linear_segment_at_node[OF assms(1,3), of 0 ys] assms(4,5) by simp
  qed
  show ?thesis using lo hi seg by (simp add: linear_query_def)
qed

lemma gap_below_sorted:
  assumes "sorted_wrt (<) xs" "k < length xs" "1 \<le> k" "gap_below_in_range xs (xs ! k)"
  shows "xs ! k - xs ! (k - 1) < overflow_threshold"
proof -
  have prev: "xs ! (k - 1) \<in> set xs" "xs ! (k - 1) < xs ! k"
    using assms(1,2,3) by (simp_all add: sorted_wrt_nth_less)
  have none: "\<not> (xs ! (k - 1) < b \<and> b < xs ! k)" if b: "b \<in> set xs" for b
  proof -
    obtain m where m: "m < length xs" "xs ! m = b" using b by (auto simp: in_set_conv_nth)
    have srt: "sorted xs" using assms(1) by (simp add: strict_sorted_iff)
    show ?thesis
    proof (cases "m < k")
      case True
      then have "xs ! m \<le> xs ! (k - 1)" using srt assms(2) by (intro sorted_nth_mono) simp_all
      then show ?thesis using m(2) by simp
    next
      case False
      then have "xs ! k \<le> xs ! m" using srt m(1) by (intro sorted_nth_mono) simp_all
      then show ?thesis using m(2) by simp
    qed
  qed
  show ?thesis using assms(4) prev none unfolding gap_below_in_range_def by blast
qed

lemma spline_row_ok:
  assumes "h ! i \<noteq> 0" "h ! (i + 1) \<noteq> 0"
  shows "\<exists>A' b'. spline_row h ys n (A, b) i = Inr (A', b')"
  using assms by (simp add: spline_row_def Let_def py_div_nonzero)

lemma for_each_spline_row_ok:
  assumes "\<forall>i \<in> set ks. h ! i \<noteq> 0 \<and> h ! (i + 1) \<noteq> 0"
  shows "\<exists>A' b'. for_each ks (spline_row h ys n) (A, b) = Inr (A', b')"
  using assms
proof (induction ks arbitrary: A b)
  case Nil
  then show ?case by simp
next
  case (Cons k ks)
  then obtain A1 b1 where "spline_row h ys n (A, b) k = Inr (A1, b1)"
    using spline_row_ok[of h k ys n A b] by auto
  moreover obtain A2 b2 where "for_each ks (spline_row h ys n) (A1, b1) = Inr (A2, b2)"
    using Cons.IH[of A1 b1] Cons.prems by auto
  ultimately show ?case by simp
qed

lemma spline_widths_nonzero:
  assumes "sorted_wrt (<) xs" "i < length xs - 1"
  shows "spline_widths xs ! i \<noteq> 0"
proof -
  have "xs ! i < xs ! (i + 1)" using assms by (simp add: sorted_wrt_nth_less)
  then show ?thesis using assms(2) by (simp add: spline_widths_def)
qed

lemma spline_system_ok:
  assumes "sorted_wrt (<) xs" "n = length xs"
  shows "\<exists>A b. spline_system (spline_widths xs) ys n = Inr (A, b)"
proof -
  have "\<forall>i \<in> set [0..<n - 2]. spline_widths xs ! i \<noteq> 0 \<and> spline_widths xs ! (i + 1) \<noteq> 0"
  proof
    fix i assume "i \<in> set [0..<n - 2]"
    then have "i < length xs - 1" "i + 1 < length xs - 1" using assms(2) by auto
    then show "spline_widths xs ! i \<noteq> 0 \<and> spline_widths xs ! (i + 1) \<noteq> 0"
      using spline_widths_nonzero[OF assms(1)] by blast
  qed
  then show ?thesis
    unfolding spline_system_def Let_def by (rule for_each_spline_row_ok)
qed

lemma validate_integration_params_bounds:
  "b \<le> a \<Longrightarrow> validate_integration_params a b n = Inl (ValueError (LowerNotLess a b))"
  by (simp add: validate_integration_params_def)

lemma validate_derivative_params_step:
  "h \<le> 0 \<or> 1 < h \<Longrightarrow>
     validate_derivative_params x h order
       = Inl (ValueError (if h \<le> 0 then NonPositiveH h else TooLargeH h))"
  by (auto simp: validate_derivative_params_def)

lemma card_set_eq_length: "card (set x) = length x \<longleftrightarrow> distinct x"
  using card_distinct distinct_card by metis

subsection \<open>Piecewise-linear interpolation at the nodes\<close>

text \<open>
  Claim C1, as amended. For a valid sample set (equal lengths, at least two points,
  pairwise distinct \<open>x\<close>) and every index \<open>i\<close> such that \<open>y_i\<close> is a finite float and the
  difference between \<open>x_i\<close> and the next smaller node, if there is one, does not overflow,
  \<^verbatim>\<open>linear_interpolate(x, y, [x_i])\<close> returns \<^verbatim>\<open>[y_i]\<close>, also at the leftmost and the
  rightmost node.
\<close>

theorem linear_interpolate_exact_at_nodes:
  assumes "validate_input x y = Inr ()" and "i < length x"
      and "finite_float (y ! i)" and "gap_below_in_range x (x ! i)"
  shows "linear_interpolate x y [x ! i] = Inr [Fin (y ! i)]"
proof -
  from assms(1) have len: "length x = length y" and two: "2 \<le> length x" and dist: "distinct x"
    by (simp_all add: validate_input_ok)
  obtain xs ys where sp: "sort_points x y = (xs, ys)" by (cases "sort_points x y")
  have strict: "sorted_wrt (<) xs" by (rule sort_points_strict[OF len dist sp])
  have lxs: "2 \<le> length xs" using sort_points_length(1)[OF len sp] two by simp
  obtain k where k: "k < length xs" "xs ! k = x ! i" "ys ! k = y ! i"
    using sort_points_nodes[OF len sp assms(2)] by blast
  have "set xs = set x" by (rule sort_points_set[OF len sp])
  then have "gap_below_in_range xs (xs ! k)"
    using assms(4) k(2) by (simp add: gap_below_in_range_def)
  then have gap: "1 \<le> k \<longrightarrow> xs ! k - xs ! (k - 1) < overflow_threshold"
    using gap_below_sorted[OF strict k(1)] by blast
  have "finite_float (ys ! k)" using assms(3) k(3) by simp
  then have "linear_query xs ys ([], None) (x ! i) = Inr ([Fin (y ! i)], Some (Fin (y ! i)))"
    using linear_query_at_node[OF strict lxs k(1) gap, of ys "[]" None] k(2,3) by simp
  then show ?thesis using assms(1) sp by (simp add: linear_interpolate_def)
qed

theorem linear_interpolate_exact_at_nodes_witness:
  "validate_input [3, 1, 2] [30, 10, 25] = Inr () \<and> (0::nat) < length [3, 1, 2::real]
   \<and> finite_float ([30, 10, 25] ! 0) \<and> gap_below_in_range [3, 1, 2] ([3, 1, 2] ! 0)
   \<and> linear_interpolate [3, 1, 2] [30, 10, 25] [3] = Inr [Fin 30]"
proof -
  have v: "validate_input [3, 1, 2] [30, 10, 25] = Inr ()" by (simp add: validate_input_ok)
  have i: "(0::nat) < length [3, 1, 2::real]" by simp
  have f: "finite_float ([30, 10, 25] ! 0)"
    using overflow_threshold_gt_thirty by (simp add: finite_float_def)
  have g: "gap_below_in_range [3, 1, 2] ([3, 1, 2] ! 0)"
    using overflow_threshold_gt_thirty by (simp add: gap_below_in_range_def)
  from linear_interpolate_exact_at_nodes[OF v i f g] v f g show ?thesis by simp
qed

text \<open>
  Claim C1, as stated, fails at the valid sample set \<open>x = [-2^1023, 2^1023]\<close>, \<open>y = [0, 1]\<close>:
  the width of the only segment overflows, \<open>t\<close> is \<^verbatim>\<open>inf / inf\<close>, and the value returned at
  the node \<open>2^1023\<close> is \<^verbatim>\<open>nan\<close>, not \<open>1\<close>.
\<close>

theorem linear_interpolate_overflow_counterexample:
  "validate_input [- (2 ^ 1023), 2 ^ 1023] [0, 1] = Inr ()
   \<and> linear_interpolate [- (2 ^ 1023), 2 ^ 1023] [0, 1] [2 ^ 1023] = Inr [NaN]
   \<and> linear_interpolate [- (2 ^ 1023), 2 ^ 1023] [0, 1] [2 ^ 1023] \<noteq> Inr [Fin 1]"
proof -
  define M :: real where "M = 2 ^ 1023"
  have pos: "0 < M" by (simp add: M_def)
  have "overflow_threshold \<le> 2 * M" by (simp add: M_def overflow_threshold_def)
  then have width: "fl (2 * M) = PInf" by (simp add: fl_def)
  have v: "validate_input [- M, M] [0, 1] = Inr ()"
    using pos by (simp add: validate_input_ok)
  have sp: "sort_points [- M, M] [0, 1] = ([- M, M], [0, 1])"
    using pos by (simp add: sort_points_def)
  have seg: "linear_segment [- M, M] [0, 1] M [0..<1] = Inr (Some NaN)"
    using pos by (simp add: width py_truediv_def py_sub_def py_mul_def py_add_def fsub_def)
  have "linear_query [- M, M] [0, 1] ([], None) M = Inr ([NaN], Some NaN)"
    using pos seg by (simp add: linear_query_def)
  then have "linear_interpolate [- M, M] [0, 1] [M] = Inr [NaN]"
    using v sp by (simp add: linear_interpolate_def)
  then show ?thesis using v unfolding M_def by simp
qed

subsection \<open>Nested evaluation of the Newton form\<close>

text \<open>
  Claim C2. For node and coefficient vectors of equal length \<open>n \<ge> 1\<close>,
  \<^verbatim>\<open>eval_newton_poly\<close> returns, at every query point, the value of the nested recurrence
  of the specification: start from \<open>c[n-1]\<close>, then for \<open>i\<close> from \<open>n-2\<close> down to \<open>0\<close> replace
  the value by \<open>value * (xi - x_nodes[i]) + c[i]\<close>.
\<close>

theorem eval_newton_poly_nested:
  assumes "length x_nodes = length c" and "1 \<le> length c"
  shows "eval_newton_poly x_nodes c xq = Inr (map (nested_newton_value c x_nodes) xq)"
proof -
  from assms(2) have "c \<noteq> []" by auto
  then have "for_each xq (newton_query x_nodes c) [] = Inr ([] @ map (nested_newton_value c x_nodes) xq)"
    by (rule for_each_newton_query)
  then show ?thesis using assms(1) by (simp add: eval_newton_poly_def)
qed

theorem eval_newton_poly_nested_witness:
  "length [0, 1, 3::real] = length [1, 2, 3::real] \<and> 1 \<le> length [1, 2, 3::real]
   \<and> eval_newton_poly [0, 1, 3] [1, 2, 3] [2, 0] = Inr [11, 1]"
proof -
  have l: "length [0, 1, 3::real] = length [1, 2, 3::real]" and p: "1 \<le> length [1, 2, 3::real]"
    by simp_all
  have "map (nested_newton_value [1, 2, 3] [0, 1, 3]) [2, 0] = [11, 1]"
    by (simp add: nested_newton_value_def numeral_3_eq_3)
  with eval_newton_poly_nested[OF l p, of "[2, 0]"] l p show ?thesis by simp
qed

subsection \<open>Empty query lists\<close>

text \<open>
  Claim C9. On a valid sample set \<^verbatim>\<open>linear_interpolate\<close> raises for an empty query list,
  while \<^verbatim>\<open>lagrange_interpolate\<close> and \<^verbatim>\<open>eval_newton_poly\<close> return the empty list, and so
  does \<^verbatim>\<open>cubic_spline_interpolate\<close> on at least three points: its tridiagonal system is
  built without error, and the call returns the empty list once the linear solver returns
  a solution of that system.
\<close>

theorem empty_query_behaviour:
  assumes "validate_input x y = Inr ()"
  shows "linear_interpolate x y [] = Inl (ValueError EmptyQuery)
       \<and> lagrange_interpolate x y [] = Inr []
       \<and> (\<forall>x_nodes c. length x_nodes = length c \<longrightarrow> eval_newton_poly x_nodes c [] = Inr [])
       \<and> (3 \<le> length x \<longrightarrow>
            (\<exists>A b. spline_system (spline_widths (fst (sort_points x y))) (snd (sort_points x y))
                      (length x) = Inr (A, b)
                \<and> (\<forall>s. solve A b = Inr s \<and> length s = length x - 2 \<longrightarrow>
                      cubic_spline_interpolate solve x y [] = Inr [])))"
proof -
  from assms have len: "length x = length y" and dist: "distinct x"
    by (simp_all add: validate_input_ok)
  obtain xs ys where sp: "sort_points x y = (xs, ys)" by (cases "sort_points x y")
  have strict: "sorted_wrt (<) xs" by (rule sort_points_strict[OF len dist sp])
  have lxs: "length xs = length x" by (rule sort_points_length(1)[OF len sp])
  have lin: "linear_interpolate x y [] = Inl (ValueError EmptyQuery)"
    using assms by (simp add: linear_interpolate_def split: prod.splits)
  have lag: "lagrange_interpolate x y [] = Inr []"
    using assms by (simp add: lagrange_interpolate_def)
  have newt: "\<forall>x_nodes c. length x_nodes = length c \<longrightarrow> eval_newton_poly x_nodes c [] = Inr []"
    by (simp add: eval_newton_poly_def)
  have spl: "3 \<le> length x \<longrightarrow>
            (\<exists>A b. spline_system (spline_widths (fst (sort_points x y))) (snd (sort_points x y))
                      (length x) = Inr (A, b)
                \<and> (\<forall>s. solve A b = Inr s \<and> length s = length x - 2 \<longrightarrow>
                      cubic_spline_interpolate solve x y [] = Inr []))"
  proof
    assume three: "3 \<le> length x"
    obtain A b where sys: "spline_system (spline_widths xs) ys (length x) = Inr (A, b)"
      using spline_system_ok[OF strict lxs[symmetric]] by blast
    have "cubic_spline_interpolate solve x y [] = Inr []"
      if "solve A b = Inr s \<and> length s = length x - 2" for s
      using that assms sp lxs three sys by (simp add: cubic_spline_interpolate_def)
    then show "\<exists>A b. spline_system (spline_widths (fst (sort_points x y))) (snd (sort_points x y))
                      (length x) = Inr (A, b)
                \<and> (\<forall>s. solve A b = Inr s \<and> length s = length x - 2 \<longrightarrow>
                      cubic_spline_interpolate solve x y [] = Inr [])"
      using sys sp by auto
  qed
  from lin lag newt spl show ?thesis by blast
qed

theorem empty_query_behaviour_witness:
  "validate_input [0, 1, 2] [0, 1, 4] = Inr ()
   \<and> linear_interpolate [0, 1, 2] [0, 1, 4] [] = Inl (ValueError EmptyQuery)
   \<and> lagrange_interpolate [0, 1, 2] [0, 1, 4] [] = Inr []
   \<and> eval_newton_poly [0, 1, 2] [0, 1, 1] [] = Inr []
   \<and> cubic_spline_interpolate (\<lambda>A b. Inr [hd b / hd (hd A)]) [0, 1, 2] [0, 1, 4] [] = Inr []"
proof -
  have v: "validate_input [0, 1, 2] [0, 1, 4] = Inr ()" by (simp add: validate_input_ok)
  note th = empty_query_behaviour[OF v, of "\<lambda>A b. Inr [hd b / hd (hd A)]"]
  from th have "eval_newton_poly [0, 1, 2] [0, 1, 1] [] = Inr []" by simp
  moreover from th have "cubic_spline_interpolate (\<lambda>A b. Inr [hd b / hd (hd A)]) [0, 1, 2] [0, 1, 4] [] = Inr []"
    by auto
  ultimately show ?thesis using th v by blast
qed

subsection \<open>Validation failures\<close>

text \<open>
  Claim C8. Validation fails before anything is computed: an interpolation call whose
  \<open>x\<close> list has a duplicate raises the \<^verbatim>\<open>ValueError\<close> of \<^verbatim>\<open>_validate_input\<close>; an integration
  call with \<open>a \<ge> b\<close> and a differentiation call with \<open>h \<le> 0\<close> or \<open>h > 1\<close> raise the
  \<^verbatim>\<open>ValueError\<close> of their parameter check. The result is the error whatever the
  expression evaluator, the quadrature table or the linear solver would do.
\<close>

theorem validation_rejects:
  "(\<not> distinct xs \<longrightarrow>
      (\<exists>m. validate_input xs ys = Inl (ValueError m)
         \<and> linear_interpolate xs ys xq = Inl (ValueError m)
         \<and> newton_divided_diffs xs ys = Inl (ValueError m)
         \<and> lagrange_interpolate xs ys xq = Inl (ValueError m)
         \<and> cubic_spline_interpolate solve xs ys xq = Inl (ValueError m)))
   \<and> (b \<le> a \<longrightarrow>
         trapecio_compuesto sympify fs a b n = Inl (ValueError (LowerNotLess a b))
       \<and> simpson_13_compuesto sympify fs a b n = Inl (ValueError (LowerNotLess a b))
       \<and> simpson_38_compuesto sympify fs a b n = Inl (ValueError (LowerNotLess a b))
       \<and> gauss_legendre leggauss numpy_call sympify fs a b n = Inl (ValueError (LowerNotLess a b)))
   \<and> (h \<le> 0 \<or> 1 < h \<longrightarrow>
         diff_adelante sympify fs x h order
           = Inl (ValueError (if h \<le> 0 then NonPositiveH h else TooLargeH h))
       \<and> diff_atras sympify fs x h order
           = Inl (ValueError (if h \<le> 0 then NonPositiveH h else TooLargeH h))
       \<and> diff_centrada sympify fs x h order
           = Inl (ValueError (if h \<le> 0 then NonPositiveH h else TooLargeH h)))"
proof (intro conjI impI)
  assume "\<not> distinct xs"
  then obtain m where m: "validate_input xs ys = Inl (ValueError m)"
    using validate_input_duplicates by blast
  then show "\<exists>m. validate_input xs ys = Inl (ValueError m)
         \<and> linear_interpolate xs ys xq = Inl (ValueError m)
         \<and> newton_divided_diffs xs ys = Inl (ValueError m)
         \<and> lagrange_interpolate xs ys xq = Inl (ValueError m)
         \<and> cubic_spline_interpolate solve xs ys xq = Inl (ValueError m)"
    by (simp add: linear_interpolate_def newton_divided_diffs_def lagrange_interpolate_def
        cubic_spline_interpolate_def)
next
  assume "b \<le> a"
  then show "trapecio_compuesto sympify fs a b n = Inl (ValueError (LowerNotLess a b))"
    by (simp add: trapecio_compuesto_def validate_integration_params_bounds)
next
  assume "b \<le> a"
  then show "simpson_13_compuesto sympify fs a b n = Inl (ValueError (LowerNotLess a b))"
    by (simp add: simpson_13_compuesto_def validate_integration_params_bounds)
next
  assume "b \<le> a"
  then show "simpson_38_compuesto sympify fs a b n = Inl (ValueError (LowerNotLess a b))"
    by (simp add: simpson_38_compuesto_def validate_integration_params_bounds)
next
  assume "b \<le> a"
  then show "gauss_legendre leggauss numpy_call sympify fs a b n = Inl (ValueError (LowerNotLess a b))"
    by (simp add: gauss_legendre_def validate_integration_params_bounds)
next
  assume "h \<le> 0 \<or> 1 < h"
  then show "diff_adelante sympify fs x h order
           = Inl (ValueError (if h \<le> 0 then NonPositiveH h else TooLargeH h))"
    by (simp add: diff_adelante_def validate_derivative_params_step)
next
  assume "h \<le> 0 \<or> 1 < h"
  then show "diff_atras sympify fs x h order
           = Inl (ValueError (if h \<le> 0 then NonPositiveH h else TooLargeH h))"
    by (simp add: diff_atras_def validate_derivative_params_step)
next
  assume "h \<le> 0 \<or> 1 < h"
  then show "diff_centrada sympify fs x h order
           = Inl (ValueError (if h \<le> 0 then NonPositiveH h else TooLargeH h))"
    by (simp add: diff_centrada_def validate_derivative_params_step)
qed

theorem validation_rejects_witness:
  "\<not> distinct [1, 2, 1::real]
   \<and> linear_interpolate [1, 2, 1] [5, 6, 7] [1] = Inl (ValueError DuplicateX)
   \<and> newton_divided_diffs [1, 2, 1] [5, 6, 7] = Inl (ValueError DuplicateX)
   \<and> lagrange_interpolate [1, 2, 1] [5, 6, 7] [1] = Inl (ValueError DuplicateX)
   \<and> cubic_spline_interpolate (\<lambda>A b. Inr b) [1, 2, 1] [5, 6, 7] [1] = Inl (ValueError DuplicateX)
   \<and> (1::real) \<le> 1
   \<and> trapecio_compuesto (\<lambda>s. Inr (\<lambda>x. Inr (Fin x))) ''x'' 1 1 4 = Inl (ValueError (LowerNotLess 1 1))
   \<and> simpson_13_compuesto (\<lambda>s. Inr (\<lambda>x. Inr (Fin x))) ''x'' 1 1 4 = Inl (ValueError (LowerNotLess 1 1))
   \<and> simpson_38_compuesto (\<lambda>s. Inr (\<lambda>x. Inr (Fin x))) ''x'' 1 1 4 = Inl (ValueError (LowerNotLess 1 1))
   \<and> gauss_legendre (\<lambda>n. ([], [])) (\<lambda>func. func) (\<lambda>s. Inr (\<lambda>x. Inr (Fin x))) ''x'' 1 1 4
        = Inl (ValueError (LowerNotLess 1 1))
   \<and> (2::real) > 1
   \<and> diff_adelante (\<lambda>s. Inr (\<lambda>x. Inr (Fin x))) ''x'' 0 2 1 = Inl (ValueError (TooLargeH 2))
   \<and> diff_atras (\<lambda>s. Inr (\<lambda>x. Inr (Fin x))) ''x'' 0 2 1 = Inl (ValueError (TooLargeH 2))
   \<and> diff_centrada (\<lambda>s. Inr (\<lambda>x. Inr (Fin x))) ''x'' 0 2 1 = Inl (ValueError (TooLargeH 2))"
proof -
  have d: "\<not> distinct [1, 2, 1::real]" by simp
  have m: "validate_input [1, 2, 1] [5, 6, 7] = Inl (ValueError DuplicateX)"
    unfolding validate_input_def card_set_eq_length by simp
  note th = validation_rejects[of "[1, 2, 1]" "[5, 6, 7]" "[1]" "\<lambda>A b. Inr b" 1 1
      "\<lambda>s. Inr (\<lambda>x. Inr (Fin x))" "''x''" 4 "\<lambda>n. ([], [])" "\<lambda>func. func" 2 0 1]
  from th d m show ?thesis by auto
qed

subsection \<open>Non-finite finite-difference values\<close>




subsection \<open>Failures of the integrand\<close>

lemma for_each_fails_with:
  assumes "\<And>s i. i \<in> set ks \<Longrightarrow>
             (case g i of Inl e \<Rightarrow> body s i = Inl e | Inr v \<Rightarrow> (\<exists>s'. body s i = Inr s'))"
  shows "(\<forall>e. for_each ks body s = Inl e \<longrightarrow> (\<exists>i \<in> set ks. g i = Inl e))
       \<and> ((\<exists>s'. for_each ks body s = Inr s') \<longleftrightarrow> (\<forall>i \<in> set ks. \<exists>v. g i = Inr v))"
  using assms
proof (induction ks arbitrary: s)
  case Nil
  then show ?case by simp
next
  case (Cons k ks)
  show ?case
  proof (cases "g k")
    case (Inl e)
    then have "body s k = Inl e" using Cons.prems[of k s] by simp
    then show ?thesis using Inl by auto
  next
    case (Inr v)
    then obtain s' where s': "body s k = Inr s'" using Cons.prems[of k s] by auto
    have IH: "(\<forall>e. for_each ks body s' = Inl e \<longrightarrow> (\<exists>i \<in> set ks. g i = Inl e))
       \<and> ((\<exists>s''. for_each ks body s' = Inr s'') \<longleftrightarrow> (\<forall>i \<in> set ks. \<exists>v. g i = Inr v))"
      using Cons.IH[of s'] Cons.prems by simp
    then show ?thesis using Inr s' by auto
  qed
qed

lemma map_err_fails_with:
  "(\<forall>e. map_err f xs = Inl e \<longrightarrow> (\<exists>x \<in> set xs. f x = Inl e))
   \<and> ((\<exists>vs. map_err f xs = Inr vs) \<longleftrightarrow> (\<forall>x \<in> set xs. \<exists>v. f x = Inr v))"
proof (induction xs)
  case Nil
  then show ?case by simp
next
  case (Cons x xs)
  then show ?case by (cases "f x"; cases "map_err f xs") auto
qed

lemma trapecio_step_fails_with:
  "case func (a + real i * h) of Inl e \<Rightarrow> trapecio_step func a h s i = Inl e
   | Inr v \<Rightarrow> (\<exists>s'. trapecio_step func a h s i = Inr s')"
  by (cases s) (simp add: trapecio_step_def Let_def split: sum.splits)

lemma simpson_38_step_fails_with:
  "case func (a + real i * h) of Inl e \<Rightarrow> simpson_38_step func a h s i = Inl e
   | Inr v \<Rightarrow> (\<exists>s'. simpson_38_step func a h s i = Inr s')"
  by (simp add: simpson_38_step_def Let_def split: sum.splits)

lemma gauss_step_fails_with:
  assumes "i < length nodes" "i < length weights"
  shows "case numpy_call func (nodes ! i) of
     Inl e \<Rightarrow> gauss_step numpy_call func nodes weights s i = Inl e
   | Inr v \<Rightarrow> (\<exists>s'. gauss_step numpy_call func nodes weights s i = Inr s')"
  using assms by (cases s) (simp add: gauss_step_def nth_err_def Let_def split: sum.splits)

lemma propagates_for_each:
  assumes "\<And>s i. i \<in> set ks \<Longrightarrow>
             (case func (pt i) of Inl e \<Rightarrow> body s i = Inl e | Inr v \<Rightarrow> (\<exists>s'. body s i = Inr s'))"
  shows "propagates func (map pt ks) (for_each ks body s)"
  using for_each_fails_with[where g = "\<lambda>i. func (pt i)" and ks = ks and body = body and s = s, OF assms]
  by (auto simp: propagates_def)

lemma propagates_map_err: "propagates func xs (map_err func xs)"
  using map_err_fails_with[of func xs] by (simp add: propagates_def)

lemma propagates_Cons:
  assumes "\<And>v. func p = Inr v \<Longrightarrow> propagates func ps (k v)"
  shows "propagates func (p # ps) (ebind (func p) k)"
proof (cases "func p")
  case (Inl e)
  then show ?thesis by (auto simp: propagates_def)
next
  case (Inr v)
  then show ?thesis using assms[OF Inr] by (auto simp: propagates_def)
qed

lemma propagates_then:
  assumes "propagates func ps r" "\<And>v. \<exists>w. k v = Inr w"
  shows "propagates func ps (ebind r k)"
proof (cases r)
  case (Inl e)
  then show ?thesis using assms(1) by (auto simp: propagates_def)
next
  case (Inr v)
  then show ?thesis using assms(1) assms(2)[of v] by (auto simp: propagates_def)
qed

lemma trapecio_propagates:
  assumes "validate_integration_params a b n = Inr ()" "parse_function sympify fs = Inr func"
  shows "propagates func (trapecio_samples a b n) (trapecio_compuesto sympify fs a b n)"
  unfolding trapecio_compuesto_def trapecio_samples_def Let_def assms ebind_Inr
  by (intro propagates_Cons propagates_then propagates_for_each trapecio_step_fails_with)
     (auto split: prod.splits)

lemma simpson_13_propagates:
  assumes "validate_integration_params a b n = Inr ()" "parse_function sympify fs = Inr func"
  shows "propagates func (simpson_13_samples a b n) (simpson_13_compuesto sympify fs a b n)"
  unfolding simpson_13_compuesto_def simpson_13_compute_def simpson_13_samples_def Let_def assms ebind_Inr
  by (intro propagates_then propagates_map_err) auto

lemma simpson_38_propagates:
  assumes "validate_integration_params a b n = Inr ()" "parse_function sympify fs = Inr func"
  shows "propagates func (simpson_38_samples a b n) (simpson_38_compuesto sympify fs a b n)"
  unfolding simpson_38_compuesto_def simpson_38_compute_def simpson_38_samples_def Let_def assms ebind_Inr
  by (intro propagates_Cons propagates_then propagates_for_each simpson_38_step_fails_with)
     (auto split: prod.splits)

lemma gauss_data_lengths:
  "gauss_data n = Some (nodes, weights) \<Longrightarrow> length nodes = nat n \<and> length weights = nat n"
  by (auto simp: gauss_data_def split: if_splits)

lemma gauss_propagates:
  assumes "validate_integration_params a b n = Inr ()" "parse_function sympify fs = Inr func"
      and "\<forall>k. length (fst (leggauss k)) = nat k \<and> length (snd (leggauss k)) = nat k"
  shows "propagates (numpy_call func) (gauss_samples leggauss a b n)
           (gauss_legendre leggauss numpy_call sympify fs a b n)"
proof -
  define m where "m = (if n > 10 then 10 else n)"
  obtain nodes weights where tab: "(case gauss_data m of None \<Rightarrow> leggauss m | Some d \<Rightarrow> d) = (nodes, weights)"
    by (cases "case gauss_data m of None \<Rightarrow> leggauss m | Some d \<Rightarrow> d")
  have len: "length nodes = nat m \<and> length weights = nat m"
  proof (cases "gauss_data m")
    case None
    then show ?thesis using tab assms(3) by (metis fst_conv snd_conv option.simps(4))
  next
    case (Some d)
    then show ?thesis using tab gauss_data_lengths[of m nodes weights] by simp
  qed
  let ?T = "\<lambda>t. (b - a) / 2 * t + (a + b) / 2"
  have samples: "gauss_samples leggauss a b n = map (\<lambda>i. map ?T nodes ! i) [0..<nat m]"
    using len tab by (auto simp: gauss_samples_def m_def[symmetric] Let_def intro!: nth_equalityI)
  have loop: "propagates (numpy_call func) (map (\<lambda>i. map ?T nodes ! i) [0..<nat m])
      (for_each [0..<nat m] (gauss_step numpy_call func (map ?T nodes) weights) st)" for st
  proof (rule propagates_for_each)
    fix s i assume "i \<in> set [0..<nat m]"
    then have "i < length (map ?T nodes)" "i < length weights" using len by simp_all
    then show "case numpy_call func (map ?T nodes ! i) of
        Inl e \<Rightarrow> gauss_step numpy_call func (map ?T nodes) weights s i = Inl e
      | Inr v \<Rightarrow> \<exists>s'. gauss_step numpy_call func (map ?T nodes) weights s i = Inr s'"
      by (rule gauss_step_fails_with)
  qed
  show ?thesis
    unfolding gauss_legendre_def Let_def assms(1,2) ebind_Inr m_def[symmetric] tab prod.case samples
    by (intro propagates_then loop) (auto split: prod.splits)
qed

text \<open>
  Claim C6, as amended. In a valid call of any of the four integration variants with a
  parsed integrand, an exception raised by the integrand at a sampled point leaves the
  call with that same exception, and no result; the call raises nothing else. A value the
  integrand returns is used as it is, also \<^verbatim>\<open>nan\<close> or \<^verbatim>\<open>inf\<close>: when the integrand returns at
  every sampled point, the call returns a result. The trapezoid and Simpson variants call
  the integrand on Python floats; \<^verbatim>\<open>gauss_legendre\<close> calls it on numpy scalars, where it may
  return \<^verbatim>\<open>nan\<close> or \<^verbatim>\<open>inf\<close> instead of raising: with \<^verbatim>\<open>1/x\<close> and a sampled point \<open>0\<close> the
  first three variants fail with \<^verbatim>\<open>ZeroDivisionError\<close> and \<^verbatim>\<open>gauss_legendre\<close> returns \<^verbatim>\<open>inf\<close>.
\<close>

theorem integrand_failure_propagates:
  assumes "validate_integration_params a b n = Inr ()"
      and "parse_function sympify fs = Inr func"
      and "\<forall>k. length (fst (leggauss k)) = nat k \<and> length (snd (leggauss k)) = nat k"
  shows "propagates func (trapecio_samples a b n) (trapecio_compuesto sympify fs a b n)
       \<and> propagates func (simpson_13_samples a b n) (simpson_13_compuesto sympify fs a b n)
       \<and> propagates func (simpson_38_samples a b n) (simpson_38_compuesto sympify fs a b n)
       \<and> propagates (numpy_call func) (gauss_samples leggauss a b n)
            (gauss_legendre leggauss numpy_call sympify fs a b n)"
  using trapecio_propagates[OF assms(1,2)] simpson_13_propagates[OF assms(1,2)]
    simpson_38_propagates[OF assms(1,2)] gauss_propagates[OF assms]
  by simp

lemma reciprocal_parses:
  "parse_function (\<lambda>s. Inr (\<lambda>x. if x = 0 then Inl ZeroDivisionError else Inr (Fin (1 / x)))) ''1/x''
     = Inr (\<lambda>x. if x = 0 then Inl ZeroDivisionError else Inr (Fin (1 / x)))"
  by (simp add: parse_function_def strip_def py_isspace_def replace_caret_def)

lemma propagates_only_error:
  assumes "propagates func ps r" "p \<in> set ps" "func p = Inl e" "\<And>q e'. func q = Inl e' \<Longrightarrow> e' = e"
  shows "r = Inl e"
proof (cases r)
  case (Inl e')
  then show ?thesis using assms(1,4) by (auto simp: propagates_def)
next
  case (Inr v)
  then show ?thesis using assms(1,2,3) by (auto simp: propagates_def)
qed

theorem integrand_failure_propagates_witness:
  "validate_integration_params 0 1 2 = Inr () \<and> validate_integration_params (- 1) 1 1 = Inr ()
   \<and> trapecio_compuesto (\<lambda>s. Inr (\<lambda>x. if x = 0 then Inl ZeroDivisionError else Inr (Fin (1 / x))))
        ''1/x'' 0 1 2 = Inl ZeroDivisionError
   \<and> simpson_13_compuesto (\<lambda>s. Inr (\<lambda>x. if x = 0 then Inl ZeroDivisionError else Inr (Fin (1 / x))))
        ''1/x'' 0 1 2 = Inl ZeroDivisionError
   \<and> simpson_38_compuesto (\<lambda>s. Inr (\<lambda>x. if x = 0 then Inl ZeroDivisionError else Inr (Fin (1 / x))))
        ''1/x'' 0 1 2 = Inl ZeroDivisionError
   \<and> gauss_legendre (\<lambda>k. (replicate (nat k) 0, replicate (nat k) 0))
        (\<lambda>func x. if x = 0 then Inr PInf else func x)
        (\<lambda>s. Inr (\<lambda>x. if x = 0 then Inl ZeroDivisionError else Inr (Fin (1 / x))))
        ''1/x'' (- 1) 1 1
       = Inr (PInf,
          [[(''step'', JStr ''nodes''), (''description'', JText (GaussNodes 1)),
            (''nodes'', JList [0]), (''weights'', JList [2])],
           [(''step'', JText (EvalLabel 1)), (''x'', JFloat (Fin 0)), (''fx'', JFloat PInf),
            (''weight'', JFloat (Fin 2)), (''contribution'', JFloat PInf)],
           [(''step'', JStr ''result''), (''description'', JText GaussRule),
            (''result'', JFloat PInf)]])"
proof -
  let ?f = "\<lambda>x::real. if x = 0 then Inl ZeroDivisionError else Inr (Fin (1 / x)) :: pyerror + pyfloat"
  let ?N = "\<lambda>(func::pyfunc) x::real. if x = 0 then Inr PInf else func x"
  let ?L = "\<lambda>k::int. (replicate (nat k) (0::real), replicate (nat k) (0::real))"
  have v1: "validate_integration_params 0 1 2 = Inr ()"
    and v2: "validate_integration_params (- 1) 1 1 = Inr ()"
    by (simp_all add: validate_integration_params_def)
  have L: "\<forall>k. length (fst (?L k)) = nat k \<and> length (snd (?L k)) = nat k" by simp
  have only: "\<And>q e'. ?f q = Inl e' \<Longrightarrow> e' = ZeroDivisionError" by (simp split: if_splits)
  have f0: "?f 0 = Inl ZeroDivisionError" by simp
  note t1 = integrand_failure_propagates[OF v1 reciprocal_parses L, of ?N]
  have s1: "0 \<in> set (trapecio_samples 0 1 2)" by (simp add: trapecio_samples_def)
  have s2: "0 \<in> set (simpson_13_samples 0 1 2)" by (simp add: simpson_13_samples_def upt_rec)
  have s3: "0 \<in> set (simpson_38_samples 0 1 2)" by (simp add: simpson_38_samples_def)
  have g: "gauss_legendre ?L ?N (\<lambda>s. Inr ?f) ''1/x'' (- 1) 1 1
       = Inr (PInf,
          [[(''step'', JStr ''nodes''), (''description'', JText (GaussNodes 1)),
            (''nodes'', JList [0]), (''weights'', JList [2])],
           [(''step'', JText (EvalLabel 1)), (''x'', JFloat (Fin 0)), (''fx'', JFloat PInf),
            (''weight'', JFloat (Fin 2)), (''contribution'', JFloat PInf)],
           [(''step'', JStr ''result''), (''description'', JText GaussRule),
            (''result'', JFloat PInf)]])"
    by (simp add: gauss_legendre_def v2 reciprocal_parses gauss_data_def gauss_step_def
        nth_err_def Let_def signed_inf_def)
  show ?thesis
    using propagates_only_error[OF t1[THEN conjunct1] s1 f0 only]
      propagates_only_error[OF t1[THEN conjunct2, THEN conjunct1] s2 f0 only]
      propagates_only_error[OF t1[THEN conjunct2, THEN conjunct2, THEN conjunct1] s3 f0 only]
      g v1 v2
    by simp
qed

text \<open>
  Claim C6 as stated fails: an integrand that is \<^verbatim>\<open>nan\<close> on the interval gives a call that
  returns \<^verbatim>\<open>nan\<close> instead of failing, and an integrand that raises gives a call that fails
  with the integrand's own exception, which does not carry the point.
\<close>

theorem integrand_failure_counterexample:
  "validate_integration_params (- 2) (- 1) 1 = Inr ()
   \<and> trapecio_compuesto (\<lambda>s. Inr (\<lambda>x. Inr (if x \<le> 0 then NaN else Fin (ln x)))) ''log(x)'' (- 2) (- 1) 1
       = Inr (NaN,
          [[(''step'', JInt 1), (''description'', JText (StepSize (- 1) (- 2) 1 1)),
            (''x'', JFloat (Fin (- 2))), (''fx'', JFloat NaN)],
           [(''step'', JStr ''final''), (''description'', JText (LastPoint (- 1))),
            (''x'', JFloat (Fin (- 1))), (''fx'', JFloat NaN)],
           [(''step'', JStr ''result''), (''description'', JText TrapezoidRule),
            (''formula'', JText (TrapezoidSubst 1 NaN (Fin 0) NaN)), (''result'', JFloat NaN)]])
   \<and> trapecio_compuesto (\<lambda>s. Inr (\<lambda>x. if x = 0 then Inl ZeroDivisionError else Inr (Fin (1 / x))))
        ''1/x'' 0 1 2 = Inl ZeroDivisionError"
  by (simp add: validate_integration_params_def trapecio_compuesto_def parse_function_def
      strip_def py_isspace_def replace_caret_def Let_def)

subsection \<open>Gauss-Legendre on polynomials\<close>

lemma cube_parses:
  "parse_function (\<lambda>s. Inr (\<lambda>x. Inr (Fin (x ^ 3)))) ''x**3'' = Inr (\<lambda>x. Inr (Fin (x ^ 3)))"
  by (simp add: parse_function_def strip_def py_isspace_def replace_caret_def)

text \<open>
  Claim C5 at a concrete input. With two nodes the rule should integrate \<open>x^3\<close> over
  \<open>[0, 1]\<close> to \<open>1/4\<close>; with the tabulated ten-digit nodes the code returns another value.
\<close>

theorem gauss_legendre_cubic_inexact:
  "validate_integration_params 0 1 2 = Inr ()
   \<and> (\<exists>steps. gauss_legendre leggauss (\<lambda>func. func) (\<lambda>s. Inr (\<lambda>x. Inr (Fin (x ^ 3))))
                ''x**3'' 0 1 2
         = Inr (Fin (12500000000224608787 / 50000000000000000000), steps))
   \<and> (12500000000224608787 / 50000000000000000000 :: real) \<noteq> 1 / 4"
  by (simp add: validate_integration_params_def gauss_legendre_def cube_parses gauss_data_def
      gauss_step_def nth_err_def Let_def upt_rec power_divide)

text \<open>With three nodes the tabulated weights sum to 2.0000000001, so that even the
  constant 1 is not integrated exactly.\<close>

theorem gauss_legendre_constant_inexact:
  "validate_integration_params 0 1 3 = Inr ()
   \<and> (\<exists>steps. gauss_legendre leggauss (\<lambda>func. func) (\<lambda>s. Inr (\<lambda>x. Inr (Fin 1))) ''1'' 0 1 3
         = Inr (Fin (20000000001 / 20000000000), steps))"
  by (simp add: validate_integration_params_def gauss_legendre_def parse_function_def strip_def
      py_isspace_def replace_caret_def gauss_data_def
      gauss_step_def nth_err_def Let_def upt_rec)

subsection \<open>Newton and Lagrange interpolation agree\<close>

lemma nodal_weight_nonzero:
  assumes "finite A" "inj_on u A" "m \<in> A"
  shows "nodal_weight u A m \<noteq> 0"
  using assms by (auto simp: nodal_weight_def inj_on_def)

lemma nodal_weight_remove:
  assumes "finite A" "a \<in> A" "m \<in> A" "m \<noteq> a"
  shows "nodal_weight u A m = nodal_weight u (A - {a}) m * (u m - u a)"
proof -
  have "A - {m} = insert a (A - {a} - {m})" using assms by auto
  moreover have "a \<notin> A - {a} - {m}" by simp
  moreover have "finite (A - {a} - {m})" using assms(1) by simp
  ultimately show ?thesis unfolding nodal_weight_def by (simp add: mult.commute)
qed

lemma dd_sum_remove:
  assumes "finite A" "inj_on u A" "a \<in> A"
  shows "dd_sum u w (A - {a}) = (\<Sum>m \<in> A. w m * (u m - u a) / nodal_weight u A m)"
proof -
  have "dd_sum u w (A - {a}) = (\<Sum>m \<in> A - {a}. w m * (u m - u a) / nodal_weight u A m)"
    unfolding dd_sum_def
  proof (rule sum.cong[OF refl])
    fix m assume m: "m \<in> A - {a}"
    then have ne: "u m - u a \<noteq> 0" using assms(2,3) by (auto simp: inj_on_def)
    have "nodal_weight u A m = nodal_weight u (A - {a}) m * (u m - u a)"
      using nodal_weight_remove[OF assms(1,3)] m by auto
    then show "w m / nodal_weight u (A - {a}) m = w m * (u m - u a) / nodal_weight u A m"
      using ne by simp
  qed
  also have "\<dots> = (\<Sum>m \<in> A. w m * (u m - u a) / nodal_weight u A m)"
    using assms(1,3) by (simp add: sum.remove[of A a])
  finally show ?thesis .
qed

lemma dd_sum_recurrence:
  assumes "finite A" "inj_on u A" "a \<in> A" "b \<in> A" "a \<noteq> b"
  shows "dd_sum u w A = (dd_sum u w (A - {a}) - dd_sum u w (A - {b})) / (u b - u a)"
proof -
  have ne: "u b - u a \<noteq> 0" using assms(2-5) by (auto simp: inj_on_def)
  have "dd_sum u w (A - {a}) - dd_sum u w (A - {b})
        = (\<Sum>m \<in> A. w m * (u m - u a) / nodal_weight u A m - w m * (u m - u b) / nodal_weight u A m)"
    by (simp add: dd_sum_remove[OF assms(1,2,3)] dd_sum_remove[OF assms(1,2,4)] sum_subtractf)
  also have "\<dots> = (\<Sum>m \<in> A. (u b - u a) * (w m / nodal_weight u A m))"
  proof (rule sum.cong[OF refl])
    fix m
    have "w m * (u m - u a) / nodal_weight u A m - w m * (u m - u b) / nodal_weight u A m
        = (w m * (u m - u a) - w m * (u m - u b)) / nodal_weight u A m"
      by (simp add: diff_divide_distrib)
    also have "\<dots> = (u b - u a) * (w m / nodal_weight u A m)"
      by (simp add: algebra_simps)
    finally show "w m * (u m - u a) / nodal_weight u A m - w m * (u m - u b) / nodal_weight u A m
        = (u b - u a) * (w m / nodal_weight u A m)" .
  qed
  also have "\<dots> = (u b - u a) * dd_sum u w A"
    by (simp add: dd_sum_def sum_distrib_left)
  finally show ?thesis using ne by simp
qed

lemma divided_difference_dd_sum:
  assumes "inj_on u {i..i + k}"
  shows "divided_difference u w i k = dd_sum u w {i..i + k}"
  using assms
proof (induction k arbitrary: i)
  case 0
  then show ?case by (simp add: dd_sum_def nodal_weight_def)
next
  case (Suc k)
  let ?A = "{i..i + Suc k}"
  have inj1: "inj_on u {i + 1..i + 1 + k}" and inj2: "inj_on u {i..i + k}"
    using Suc.prems by (auto intro: inj_on_subset)
  have A1: "?A - {i} = {i + 1..i + 1 + k}" and A2: "?A - {i + Suc k} = {i..i + k}" by auto
  have "dd_sum u w ?A = (dd_sum u w (?A - {i}) - dd_sum u w (?A - {i + Suc k})) / (u (i + Suc k) - u i)"
    by (rule dd_sum_recurrence[OF _ Suc.prems]) auto
  then show ?case
    unfolding A1 A2 using Suc.IH[OF inj1] Suc.IH[OF inj2] by simp
qed

lemma lagrange_sum_insert:
  assumes "finite A" "b \<notin> A" "inj_on u (insert b A)"
  shows "lagrange_sum u w (insert b A) q
       = lagrange_sum u w A q + dd_sum u w (insert b A) * (\<Prod>l \<in> A. q - u l)"
proof -
  let ?B = "insert b A"
  have finB: "finite ?B" using assms(1) by simp
  have quot: "(\<Prod>l \<in> S. (q - u l) / (u m - u l)) = (\<Prod>l \<in> S. q - u l) / (\<Prod>l \<in> S. u m - u l)" for S m
    by (rule prod_dividef)
  have Bb: "?B - {b} = A" using assms(2) by auto
  have termb: "w b * (\<Prod>l \<in> ?B - {b}. (q - u l) / (u b - u l))
             = w b / nodal_weight u ?B b * (\<Prod>l \<in> A. q - u l)"
    by (simp add: quot Bb nodal_weight_def)
  have termm: "w m * (\<Prod>l \<in> ?B - {m}. (q - u l) / (u m - u l))
             = w m * (\<Prod>l \<in> A - {m}. (q - u l) / (u m - u l))
               + w m / nodal_weight u ?B m * (\<Prod>l \<in> A. q - u l)" if m: "m \<in> A" for m
  proof -
    have mb: "m \<noteq> b" using m assms(2) by auto
    have ne: "u m - u b \<noteq> 0" using assms(3) m mb by (auto simp: inj_on_def)
    have W: "nodal_weight u ?B m = nodal_weight u A m * (u m - u b)"
      using nodal_weight_remove[OF finB, of b m u] m mb assms(2) by simp
    have Wne: "nodal_weight u A m \<noteq> 0"
      using nodal_weight_nonzero[OF assms(1) _ m] assms(3) by (auto intro: inj_on_subset)
    have Bm: "?B - {m} = insert b (A - {m})" using mb by auto
    have P1: "(\<Prod>l \<in> ?B - {m}. q - u l) = (q - u b) * (\<Prod>l \<in> A - {m}. q - u l)"
      unfolding Bm using assms(1,2) by simp
    have P2: "(\<Prod>l \<in> A. q - u l) = (q - u m) * (\<Prod>l \<in> A - {m}. q - u l)"
      using assms(1) m by (simp add: prod.remove)
    have D1: "(\<Prod>l \<in> ?B - {m}. u m - u l) = nodal_weight u ?B m" by (simp add: nodal_weight_def)
    have D2: "(\<Prod>l \<in> A - {m}. u m - u l) = nodal_weight u A m" by (simp add: nodal_weight_def)
    show ?thesis
      unfolding quot P1 P2 D1 D2 W using ne Wne by (simp add: field_simps)
  qed
  have "lagrange_sum u w ?B q
      = w b * (\<Prod>l \<in> ?B - {b}. (q - u l) / (u b - u l))
        + (\<Sum>m \<in> A. w m * (\<Prod>l \<in> ?B - {m}. (q - u l) / (u m - u l)))"
    unfolding lagrange_sum_def using assms(1,2) by simp
  also have "(\<Sum>m \<in> A. w m * (\<Prod>l \<in> ?B - {m}. (q - u l) / (u m - u l)))
      = (\<Sum>m \<in> A. w m * (\<Prod>l \<in> A - {m}. (q - u l) / (u m - u l))
               + w m / nodal_weight u ?B m * (\<Prod>l \<in> A. q - u l))"
    by (rule sum.cong[OF refl]) (rule termm)
  also have "\<dots> = lagrange_sum u w A q
        + (\<Sum>m \<in> A. w m / nodal_weight u ?B m) * (\<Prod>l \<in> A. q - u l)"
    by (simp add: lagrange_sum_def sum.distrib sum_distrib_right)
  finally show ?thesis
    unfolding termb dd_sum_def using assms(1,2) by (simp add: algebra_simps)
qed

lemma newton_form_lagrange:
  assumes "inj_on u {..<n}"
  shows "(\<Sum>j<n. divided_difference u w 0 j * (\<Prod>l<j. q - u l)) = lagrange_sum u w {..<n} q"
  using assms
proof (induction n)
  case 0
  then show ?case by (simp add: lagrange_sum_def)
next
  case (Suc n)
  have inj: "inj_on u {..<n}" using Suc.prems by (auto intro: inj_on_subset)
  have ins: "{..<Suc n} = insert n {..<n}" by auto
  have dd: "divided_difference u w 0 n = dd_sum u w {..<Suc n}"
    using divided_difference_dd_sum[of u 0 n w] Suc.prems by (simp add: atLeast0AtMost lessThan_Suc_atMost)
  have "lagrange_sum u w {..<Suc n} q
      = lagrange_sum u w {..<n} q + dd_sum u w {..<Suc n} * (\<Prod>l<n. q - u l)"
    unfolding ins by (rule lagrange_sum_insert) (use Suc.prems ins in auto)
  then show ?case using Suc.IH[OF inj] dd by simp
qed

lemma length_set_entry [simp]: "length (set_entry F i j v) = length F"
  by (simp add: set_entry_def)

lemma length_set_entry_row [simp]:
  "i' < length F \<Longrightarrow> length (set_entry F i j v ! i') = length (F ! i')"
  by (cases "i' = i") (simp_all add: set_entry_def)

lemma nth_set_entry:
  "i < length F \<Longrightarrow> j < length (F ! i) \<Longrightarrow> i' < length F \<Longrightarrow>
     set_entry F i j v ! i' ! j' = (if i' = i \<and> j' = j then v else F ! i' ! j')"
  by (cases "i' = i"; cases "j' = j") (simp_all add: set_entry_def)

lemma newton_first_column:
  assumes "m \<le> n"
  shows "let G = foldl (\<lambda>F i. set_entry F i 0 (ys ! i)) (replicate n (replicate n 0)) [0..<m] in
         length G = n \<and> (\<forall>i < n. length (G ! i) = n) \<and> (\<forall>i < m. G ! i ! 0 = ys ! i)"
  using assms
proof (induction m)
  case 0
  then show ?case by simp
next
  case (Suc m)
  define G where "G = foldl (\<lambda>F i. set_entry F i 0 (ys ! i)) (replicate n (replicate n 0)) [0..<m]"
  have G: "length G = n" "\<forall>i < n. length (G ! i) = n" "\<forall>i < m. G ! i ! 0 = ys ! i"
    using Suc.IH Suc.prems by (simp_all add: G_def Let_def)
  have m: "m < n" using Suc.prems by simp
  have "\<forall>i < Suc m. set_entry G m 0 (ys ! m) ! i ! 0 = ys ! i"
    using G m by (auto simp: nth_set_entry less_Suc_eq)
  then show ?case using G m by (simp add: G_def[symmetric] Let_def)
qed

lemma newton_entries:
  assumes "table_filled xs ys n j F" "1 \<le> j" "m + j \<le> n"
      and "\<forall>i < m. \<not> \<bar>xs ! (i + j) - xs ! i\<bar> < 1 / 10 ^ 15"
  shows "\<exists>G. for_each [0..<m] (newton_entry xs j) F = Inr G \<and> table_filled xs ys n j G
           \<and> (\<forall>i < m. G ! i ! j = divided_difference ((!) xs) ((!) ys) i j)"
  using assms(3,4)
proof (induction m)
  case 0
  then show ?case using assms(1) by simp
next
  case (Suc m)
  then obtain G where G: "for_each [0..<m] (newton_entry xs j) F = Inr G" "table_filled xs ys n j G"
      "\<forall>i < m. G ! i ! j = divided_difference ((!) xs) ((!) ys) i j"
    by auto
  obtain k where k: "j = Suc k" using assms(2) by (cases j) auto
  have mn: "m < n" "m + 1 < n" "j < n" using Suc.prems(1) assms(2) by simp_all
  have shape: "length G = n" "\<forall>i < n. length (G ! i) = n"
    using G(2) by (simp_all add: table_filled_def)
  have prev: "G ! (m + 1) ! k = divided_difference ((!) xs) ((!) ys) (m + 1) k"
             "G ! m ! k = divided_difference ((!) xs) ((!) ys) m k"
    using G(2) Suc.prems(1) k by (simp_all add: table_filled_def)
  define v where "v = (G ! (m + 1) ! (j - 1) - G ! m ! (j - 1)) / (xs ! (m + j) - xs ! m)"
  have v: "v = divided_difference ((!) xs) ((!) ys) m j"
    using prev by (simp add: v_def k)
  have ok: "\<not> \<bar>xs ! (m + j) - xs ! m\<bar> < 1 / 10 ^ 15" using Suc.prems(2) by simp
  have step: "newton_entry xs j G m = Inr (set_entry G m j v)"
    using ok by (simp add: newton_entry_def Let_def v_def)
  let ?G = "set_entry G m j v"
  have "table_filled xs ys n j ?G"
    using G(2) mn shape by (auto simp: table_filled_def nth_set_entry)
  moreover have "\<forall>i < Suc m. ?G ! i ! j = divided_difference ((!) xs) ((!) ys) i j"
    using G(3) v mn shape by (auto simp: nth_set_entry less_Suc_eq)
  ultimately show ?case using G(1) step by (simp add: for_each_append)
qed

lemma newton_column_filled:
  assumes "table_filled xs ys n j F" "1 \<le> j" "j < n" "length xs = n" "separated xs"
  shows "\<exists>G. newton_column xs n F j = Inr G \<and> table_filled xs ys n (Suc j) G"
proof -
  have sep: "\<forall>i < n - j. \<not> \<bar>xs ! (i + j) - xs ! i\<bar> < 1 / 10 ^ 15"
    using assms(2,3,4,5) by (auto simp: separated_def)
  obtain G where G: "for_each [0..<n - j] (newton_entry xs j) F = Inr G" "table_filled xs ys n j G"
      "\<forall>i < n - j. G ! i ! j = divided_difference ((!) xs) ((!) ys) i j"
    using newton_entries[OF assms(1,2) _ sep] assms(3) by auto
  have "table_filled xs ys n (Suc j) G"
    using G(2,3) by (auto simp: table_filled_def less_Suc_eq)
  then show ?thesis using G(1) by (simp add: newton_column_def)
qed

lemma newton_columns:
  assumes "table_filled xs ys n 1 F" "1 \<le> m" "m \<le> n" "length xs = n" "separated xs"
  shows "\<exists>G. for_each [1..<m] (newton_column xs n) F = Inr G \<and> table_filled xs ys n m G"
  using assms(2,3)
proof (induction m)
  case 0
  then show ?case by simp
next
  case (Suc m)
  show ?case
  proof (cases "m = 0")
    case True
    then show ?thesis using assms(1) by simp
  next
    case False
    then obtain G where G: "for_each [1..<m] (newton_column xs n) F = Inr G" "table_filled xs ys n m G"
      using Suc by auto
    obtain G' where "newton_column xs n G m = Inr G'" "table_filled xs ys n (Suc m) G'"
      using newton_column_filled[OF G(2) _ _ assms(4,5)] False Suc.prems by auto
    then show ?thesis using G(1) False by (auto simp: for_each_append)
  qed
qed

lemma newton_table:
  assumes "length xs = n" "1 \<le> n" "separated xs"
  shows "\<exists>G. for_each [1..<n] (newton_column xs n)
                (foldl (\<lambda>F i. set_entry F i 0 (ys ! i)) (replicate n (replicate n 0)) [0..<n]) = Inr G
           \<and> map (\<lambda>j. G ! 0 ! j) [0..<n] = map (divided_difference ((!) xs) ((!) ys) 0) [0..<n]"
proof -
  let ?F = "foldl (\<lambda>F i. set_entry F i 0 (ys ! i)) (replicate n (replicate n 0)) [0..<n]"
  have "table_filled xs ys n 1 ?F"
    using newton_first_column[of n n ys] by (simp add: table_filled_def Let_def)
  then obtain G where G: "for_each [1..<n] (newton_column xs n) ?F = Inr G" "table_filled xs ys n n G"
    using newton_columns[OF _ assms(2) le_refl assms(1,3)] by blast
  have "map (\<lambda>j. G ! 0 ! j) [0..<n] = map (divided_difference ((!) xs) ((!) ys) 0) [0..<n]"
    using G(2) by (auto simp: table_filled_def)
  with G(1) show ?thesis by blast
qed

lemma separated_set:
  assumes "distinct x"
  shows "separated x \<longleftrightarrow> (\<forall>a \<in> set x. \<forall>b \<in> set x. a \<noteq> b \<longrightarrow> \<not> \<bar>a - b\<bar> < 1 / 10 ^ 15)"
proof
  assume s: "separated x"
  show "\<forall>a \<in> set x. \<forall>b \<in> set x. a \<noteq> b \<longrightarrow> \<not> \<bar>a - b\<bar> < 1 / 10 ^ 15"
  proof (intro ballI impI)
    fix a b assume "a \<in> set x" "b \<in> set x" "a \<noteq> b"
    then obtain i j where "i < length x" "j < length x" "x ! i = a" "x ! j = b" "i \<noteq> j"
      by (metis in_set_conv_nth)
    then show "\<not> \<bar>a - b\<bar> < 1 / 10 ^ 15" using s by (auto simp: separated_def)
  qed
next
  assume r: "\<forall>a \<in> set x. \<forall>b \<in> set x. a \<noteq> b \<longrightarrow> \<not> \<bar>a - b\<bar> < 1 / 10 ^ 15"
  show "separated x"
    unfolding separated_def
  proof (intro allI impI)
    fix i j assume "i < length x" "j < length x" "i \<noteq> j"
    then have "x ! i \<in> set x" "x ! j \<in> set x" "x ! i \<noteq> x ! j"
      using assms by (auto simp: nth_eq_iff_index_eq)
    then show "\<not> \<bar>x ! i - x ! j\<bar> < 1 / 10 ^ 15" using r by blast
  qed
qed

lemma sort_points_separated:
  assumes "length x = length y" "distinct x" "sort_points x y = (xs, ys)"
  shows "separated xs \<longleftrightarrow> separated x"
  using separated_set[OF assms(2)] separated_set[OF sort_points_distinct[OF assms]]
    sort_points_set[OF assms(1,3)] by simp

lemma horner_from_newton_form:
  "horner_from c xs q k v = v * (\<Prod>l<k. q - xs ! l) + (\<Sum>j<k. c ! j * (\<Prod>l<j. q - xs ! l))"
  by (induction k arbitrary: v) (simp_all add: algebra_simps)

lemma nested_newton_value_form:
  assumes "c \<noteq> []"
  shows "nested_newton_value c xs q = (\<Sum>j<length c. c ! j * (\<Prod>l<j. q - xs ! l))"
proof -
  obtain k where k: "length c = Suc k" using assms by (cases c) auto
  show ?thesis by (simp add: nested_newton_value_def horner_from_newton_form k)
qed

lemma newton_interpolate_value:
  assumes "validate_input x y = Inr ()" "separated x" "sort_points x y = (xs, ys)"
  shows "newton_interpolate x y xq = Inr (map (lagrange_sum ((!) xs) ((!) ys) {..<length x}) xq)"
proof -
  from assms(1) have len: "length x = length y" and two: "2 \<le> length x" and dist: "distinct x"
    by (simp_all add: validate_input_ok)
  let ?n = "length x"
  have lxs: "length xs = ?n" by (rule sort_points_length(1)[OF len assms(3)])
  have sep: "separated xs" using sort_points_separated[OF len dist assms(3)] assms(2) by simp
  have dxs: "distinct xs" by (rule sort_points_distinct[OF len dist assms(3)])
  let ?c = "map (divided_difference ((!) xs) ((!) ys) 0) [0..<?n]"
  obtain G where G: "for_each [1..<?n] (newton_column xs ?n)
        (foldl (\<lambda>F i. set_entry F i 0 (ys ! i)) (replicate ?n (replicate ?n 0)) [0..<?n]) = Inr G"
      "map (\<lambda>j. G ! 0 ! j) [0..<?n] = ?c"
    using newton_table[OF lxs _ sep, of ys] two by auto
  have nd: "newton_divided_diffs x y = Inr (xs, ?c)"
    using assms(1,3) lxs G by (simp add: newton_divided_diffs_def Let_def)
  have cne: "?c \<noteq> []" using two by auto
  have inj: "inj_on ((!) xs) {..<?n}"
    using dxs lxs by (auto simp: inj_on_def nth_eq_iff_index_eq)
  have val: "nested_newton_value ?c xs q = lagrange_sum ((!) xs) ((!) ys) {..<?n} q" for q
  proof -
    have "nested_newton_value ?c xs q
        = (\<Sum>j<?n. divided_difference ((!) xs) ((!) ys) 0 j * (\<Prod>l<j. q - xs ! l))"
      by (simp add: nested_newton_value_form[OF cne])
    then show ?thesis using newton_form_lagrange[OF inj] by simp
  qed
  have "eval_newton_poly xs ?c xq = Inr (map (nested_newton_value ?c xs) xq)"
    using lxs for_each_newton_query[OF cne, of xq xs "[]"] by (simp add: eval_newton_poly_def)
  then show ?thesis using nd val by (simp add: newton_interpolate_def)
qed

lemma lagrange_factors:
  assumes "i < length x" "m \<le> length x" "separated x"
  shows "for_each [0..<m] (lagrange_factor x q i) li
       = Inr (li * (\<Prod>l \<in> {..<m} - {i}. (q - x ! l) / (x ! i - x ! l)))"
  using assms(2)
proof (induction m)
  case 0
  then show ?case by simp
next
  case (Suc m)
  have IH: "for_each [0..<m] (lagrange_factor x q i) li
       = Inr (li * (\<Prod>l \<in> {..<m} - {i}. (q - x ! l) / (x ! i - x ! l)))"
    using Suc by simp
  have step: "for_each [0..<Suc m] (lagrange_factor x q i) li
       = lagrange_factor x q i (li * (\<Prod>l \<in> {..<m} - {i}. (q - x ! l) / (x ! i - x ! l))) m"
    using IH by (simp add: for_each_append split: sum.splits)
  show ?case
  proof (cases "i = m")
    case True
    then have "{..<Suc m} - {i} = {..<m} - {i}" by auto
    then show ?thesis unfolding step using True by (simp add: lagrange_factor_def)
  next
    case False
    then have ok: "\<not> \<bar>x ! i - x ! m\<bar> < 1 / 10 ^ 15"
      using assms(1,3) Suc.prems by (auto simp: separated_def)
    have set: "{..<Suc m} - {i} = insert m ({..<m} - {i})" using False by auto
    have "(\<Prod>l \<in> {..<Suc m} - {i}. (q - x ! l) / (x ! i - x ! l))
        = (q - x ! m) / (x ! i - x ! m) * (\<Prod>l \<in> {..<m} - {i}. (q - x ! l) / (x ! i - x ! l))"
      unfolding set by simp
    then show ?thesis unfolding step using False ok
      by (simp add: lagrange_factor_def Let_def mult.assoc mult.left_commute)
  qed
qed

lemma lagrange_terms:
  assumes "m \<le> length x" "separated x"
  shows "for_each [0..<m] (lagrange_term x y q (length x)) t
       = Inr (t + (\<Sum>i<m. y ! i * (\<Prod>l \<in> {..<length x} - {i}. (q - x ! l) / (x ! i - x ! l))))"
  using assms(1)
proof (induction m)
  case 0
  then show ?case by simp
next
  case (Suc m)
  then have m: "m < length x" by simp
  have IH: "for_each [0..<m] (lagrange_term x y q (length x)) t
       = Inr (t + (\<Sum>i<m. y ! i * (\<Prod>l \<in> {..<length x} - {i}. (q - x ! l) / (x ! i - x ! l))))"
    using Suc by simp
  have step: "for_each [0..<Suc m] (lagrange_term x y q (length x)) t
       = lagrange_term x y q (length x)
           (t + (\<Sum>i<m. y ! i * (\<Prod>l \<in> {..<length x} - {i}. (q - x ! l) / (x ! i - x ! l)))) m"
    using IH by (simp add: for_each_append split: sum.splits)
  show ?case unfolding step
    by (simp add: lagrange_term_def lagrange_factors[OF m le_refl assms(2)] add.assoc)
qed

lemma lagrange_queries:
  assumes "separated x"
  shows "for_each xq (lagrange_query x y (length x)) result
       = Inr (result @ map (lagrange_sum ((!) x) ((!) y) {..<length x}) xq)"
proof (induction xq arbitrary: result)
  case Nil
  then show ?case by simp
next
  case (Cons q xq)
  have "lagrange_query x y (length x) result q
      = Inr (result @ [lagrange_sum ((!) x) ((!) y) {..<length x} q])"
    by (simp add: lagrange_query_def lagrange_terms[OF le_refl assms] lagrange_sum_def)
  then show ?case using Cons by simp
qed

lemma lagrange_interpolate_value:
  assumes "validate_input x y = Inr ()" "separated x"
  shows "lagrange_interpolate x y xq = Inr (map (lagrange_sum ((!) x) ((!) y) {..<length x}) xq)"
  using assms by (simp add: lagrange_interpolate_def lagrange_queries)

text \<open>The Lagrange sum depends only on the set of points.\<close>

lemma lagrange_sum_points:
  assumes "distinct ps"
  shows "lagrange_sum ((!) (map fst ps)) ((!) (map snd ps)) {..<length ps} q
       = (\<Sum>p \<in> set ps. snd p * (\<Prod>r \<in> set ps - {p}. (q - fst r) / (fst p - fst r)))"
proof -
  let ?n = "length ps"
  have bij: "bij_betw ((!) ps) {..<?n} (set ps)"
    by (rule bij_betw_nth[OF assms]) simp_all
  have inner: "(\<Prod>l \<in> {..<?n} - {i}. (q - fst (ps ! l)) / (fst (ps ! i) - fst (ps ! l)))
             = (\<Prod>r \<in> set ps - {ps ! i}. (q - fst r) / (fst (ps ! i) - fst r))" if "i < ?n" for i
  proof -
    have "bij_betw ((!) ps) ({..<?n} - {i}) (set ps - {ps ! i})"
      using bij that by (auto simp: bij_betw_def inj_on_def)
    then show ?thesis
      by (rule prod.reindex_bij_betw[where g = "\<lambda>r. (q - fst r) / (fst (ps ! i) - fst r)"])
  qed
  have "lagrange_sum ((!) (map fst ps)) ((!) (map snd ps)) {..<?n} q
      = (\<Sum>i<?n. snd (ps ! i) * (\<Prod>l \<in> {..<?n} - {i}. (q - fst (ps ! l)) / (fst (ps ! i) - fst (ps ! l))))"
    unfolding lagrange_sum_def
    by (intro sum.cong[OF refl] arg_cong2[where f = "(*)"] prod.cong[OF refl]) auto
  also have "\<dots> = (\<Sum>i<?n. snd (ps ! i) * (\<Prod>r \<in> set ps - {ps ! i}. (q - fst r) / (fst (ps ! i) - fst r)))"
    by (rule sum.cong[OF refl]) (simp add: inner)
  also have "\<dots> = (\<Sum>p \<in> set ps. snd p * (\<Prod>r \<in> set ps - {p}. (q - fst r) / (fst p - fst r)))"
    by (rule sum.reindex_bij_betw[OF bij,
          where g = "\<lambda>p. snd p * (\<Prod>r \<in> set ps - {p}. (q - fst r) / (fst p - fst r))"])
  finally show ?thesis .
qed

lemma lagrange_sum_sorted:
  assumes "length x = length y" "distinct x" "sort_points x y = (xs, ys)"
  shows "lagrange_sum ((!) xs) ((!) ys) {..<length x} q = lagrange_sum ((!) x) ((!) y) {..<length x} q"
proof -
  let ?ps = "zip x y" and ?qs = "sort_key fst (zip x y)"
  have d: "distinct ?ps" using assms(1,2) by (simp add: distinct_zipI1)
  have d': "distinct ?qs" using d by simp
  have xy: "map fst ?ps = x" "map snd ?ps = y" "length ?ps = length x" using assms(1) by simp_all
  have xys: "map fst ?qs = xs" "map snd ?qs = ys" "length ?qs = length x"
    using assms(1,3) by (auto simp: sort_points_def Let_def)
  have "lagrange_sum ((!) xs) ((!) ys) {..<length x} q
      = (\<Sum>p \<in> set ?qs. snd p * (\<Prod>r \<in> set ?qs - {p}. (q - fst r) / (fst p - fst r)))"
    using lagrange_sum_points[OF d', of q] unfolding xys .
  also have "\<dots> = (\<Sum>p \<in> set ?ps. snd p * (\<Prod>r \<in> set ?ps - {p}. (q - fst r) / (fst p - fst r)))"
    by simp
  also have "\<dots> = lagrange_sum ((!) x) ((!) y) {..<length x} q"
    using lagrange_sum_points[OF d, of q] unfolding xy by simp
  finally show ?thesis .
qed

lemma for_each_isl:
  assumes "i \<in> set ks" "\<And>s. isl (body s i)"
  shows "isl (for_each ks body s)"
  using assms(1)
proof (induction ks arbitrary: s)
  case Nil
  then show ?case by simp
next
  case (Cons k ks)
  show ?case
  proof (cases "body s k")
    case (Inl e)
    then show ?thesis by simp
  next
    case (Inr s')
    then have "i \<noteq> k" using assms(2)[of s] by auto
    then have "i \<in> set ks" using Cons.prems by simp
    then show ?thesis using Cons.IH Inr by simp
  qed
qed

lemma isl_ebind: "isl m \<Longrightarrow> isl (ebind m f)"
  by (cases m) simp_all

lemma lagrange_interpolate_fails:
  assumes "validate_input x y = Inr ()" "\<not> separated x"
  shows "isl (lagrange_interpolate x y (q # qs))"
proof -
  obtain i j where ij: "i < length x" "j < length x" "i \<noteq> j" "\<bar>x ! i - x ! j\<bar> < 1 / 10 ^ 15"
    using assms(2) by (auto simp: separated_def)
  have f: "isl (lagrange_factor x q0 i li j)" for li q0
    using ij by (simp add: lagrange_factor_def Let_def)
  have "isl (for_each [0..<length x] (lagrange_factor x q0 i) li)" for li q0
    by (rule for_each_isl[of j]) (use ij(2) f in simp_all)
  then have t: "isl (lagrange_term x y q0 (length x) t i)" for t q0
    by (simp add: lagrange_term_def isl_ebind)
  have "isl (for_each [0..<length x] (lagrange_term x y q0 (length x)) t)" for t q0
    by (rule for_each_isl[of i]) (use ij(1) t in simp_all)
  then have "isl (lagrange_query x y (length x) result q0)" for result q0
    by (simp add: lagrange_query_def isl_ebind)
  then have "isl (for_each (q # qs) (lagrange_query x y (length x)) [])"
    by (intro for_each_isl[of q]) simp_all
  then show ?thesis using assms(1) by (simp add: lagrange_interpolate_def Let_def)
qed

lemma newton_interpolate_fails:
  assumes "validate_input x y = Inr ()" "\<not> separated x"
  shows "isl (newton_interpolate x y xq)"
proof -
  from assms(1) have len: "length x = length y" and dist: "distinct x"
    by (simp_all add: validate_input_ok)
  obtain xs ys where sp: "sort_points x y = (xs, ys)" by (cases "sort_points x y")
  let ?n = "length xs"
  have "\<not> separated xs" using sort_points_separated[OF len dist sp] assms(2) by simp
  then obtain i j where ij: "i < ?n" "j < ?n" "i \<noteq> j" "\<bar>xs ! i - xs ! j\<bar> < 1 / 10 ^ 15"
    by (auto simp: separated_def)
  have "\<exists>i d. 1 \<le> d \<and> i + d < ?n \<and> \<bar>xs ! (i + d) - xs ! i\<bar> < 1 / 10 ^ 15"
  proof (cases "i < j")
    case True
    then have "1 \<le> j - i" "i + (j - i) < ?n" "\<bar>xs ! (i + (j - i)) - xs ! i\<bar> < 1 / 10 ^ 15"
      using ij by (simp_all add: abs_minus_commute)
    then show ?thesis by blast
  next
    case False
    then have "1 \<le> i - j" "j + (i - j) < ?n" "\<bar>xs ! (j + (i - j)) - xs ! j\<bar> < 1 / 10 ^ 15"
      using ij by simp_all
    then show ?thesis by blast
  qed
  then obtain i d where d: "1 \<le> d" "i + d < ?n" "\<bar>xs ! (i + d) - xs ! i\<bar> < 1 / 10 ^ 15"
    by blast
  have e: "isl (newton_entry xs d F i)" for F
    using d(3) by (simp add: newton_entry_def Let_def)
  have c: "isl (newton_column xs ?n F d)" for F
    unfolding newton_column_def by (rule for_each_isl[of i]) (use d(2) e in simp_all)
  have "isl (for_each [1..<?n] (newton_column xs ?n) F)" for F
    by (rule for_each_isl[of d]) (use d(1,2) c in simp_all)
  then have "isl (newton_divided_diffs x y)"
    using assms(1) sp by (simp add: newton_divided_diffs_def Let_def isl_ebind)
  then show ?thesis by (simp add: newton_interpolate_def isl_ebind)
qed

text \<open>
  Claim C3, as amended. On a valid sample set no two nodes of which are closer than
  \<open>1e-15\<close>, the Newton form (\<^verbatim>\<open>newton_divided_diffs\<close>, then \<^verbatim>\<open>eval_newton_poly\<close>) and
  \<^verbatim>\<open>lagrange_interpolate\<close> return, in exact arithmetic, the same values at all query points:
  those of the interpolating polynomial of the samples. On a valid sample set with two
  nodes closer than \<open>1e-15\<close> neither returns a value at any query point: both calls raise.
  So on every valid sample set the two either return the same values or both raise.
\<close>

theorem newton_lagrange_agree:
  assumes "validate_input x y = Inr ()"
  shows "map_sum (\<lambda>e. ()) id (newton_interpolate x y (q # qs))
           = map_sum (\<lambda>e. ()) id (lagrange_interpolate x y (q # qs))
       \<and> (separated x \<longrightarrow>
            newton_interpolate x y xq = lagrange_interpolate x y xq
          \<and> lagrange_interpolate x y xq = Inr (map (lagrange_sum ((!) x) ((!) y) {..<length x}) xq))
       \<and> (\<not> separated x \<longrightarrow>
            isl (newton_interpolate x y (q # qs)) \<and> isl (lagrange_interpolate x y (q # qs)))"
proof -
  from assms have len: "length x = length y" and dist: "distinct x"
    by (simp_all add: validate_input_ok)
  obtain xs ys where sp: "sort_points x y = (xs, ys)" by (cases "sort_points x y")
  have agree: "newton_interpolate x y zs = lagrange_interpolate x y zs
      \<and> lagrange_interpolate x y zs = Inr (map (lagrange_sum ((!) x) ((!) y) {..<length x}) zs)"
    if sep: "separated x" for zs
  proof -
    have "newton_interpolate x y zs = Inr (map (lagrange_sum ((!) xs) ((!) ys) {..<length x}) zs)"
      by (rule newton_interpolate_value[OF assms sep sp])
    also have "\<dots> = Inr (map (lagrange_sum ((!) x) ((!) y) {..<length x}) zs)"
      using lagrange_sum_sorted[OF len dist sp] by simp
    finally have n: "newton_interpolate x y zs
        = Inr (map (lagrange_sum ((!) x) ((!) y) {..<length x}) zs)" .
    have l: "lagrange_interpolate x y zs = Inr (map (lagrange_sum ((!) x) ((!) y) {..<length x}) zs)"
      by (rule lagrange_interpolate_value[OF assms sep])
    from n l show ?thesis by simp
  qed
  have fails: "isl (newton_interpolate x y (q # qs)) \<and> isl (lagrange_interpolate x y (q # qs))"
    if "\<not> separated x"
    using newton_interpolate_fails[OF assms that] lagrange_interpolate_fails[OF assms that]
    by simp
  have outcome: "map_sum (\<lambda>e. ()) id (newton_interpolate x y (q # qs))
           = map_sum (\<lambda>e. ()) id (lagrange_interpolate x y (q # qs))"
  proof (cases "separated x")
    case True
    then show ?thesis using agree[of "q # qs"] by simp
  next
    case False
    then obtain e1 e2 where "newton_interpolate x y (q # qs) = Inl e1"
        "lagrange_interpolate x y (q # qs) = Inl e2"
      using fails by (auto simp: isl_def)
    then show ?thesis by simp
  qed
  from outcome agree fails show ?thesis by blast
qed

theorem newton_lagrange_agree_witness:
  "validate_input [2, 0, 1] [4, 0, 1] = Inr () \<and> separated [2, 0, 1]
   \<and> newton_interpolate [2, 0, 1] [4, 0, 1] [3] = Inr [9]
   \<and> lagrange_interpolate [2, 0, 1] [4, 0, 1] [3] = Inr [9]"
proof -
  have v: "validate_input [2, 0, 1] [4, 0, 1] = Inr ()" by (simp add: validate_input_ok)
  have s: "separated [2, 0, 1]" by (simp add: separated_set)
  have l: "lagrange_interpolate [2, 0, 1] [4, 0, 1] [3] = Inr [9]"
    by (simp add: lagrange_interpolate_def v lagrange_query_def lagrange_term_def
        lagrange_factor_def Let_def upt_rec)
  from newton_lagrange_agree[OF v, of _ _ "[3]"] s l v show ?thesis by simp
qed

text \<open>
  Claim C3, as stated, fails at the valid sample set \<open>x = [1, 1 + 2^-52]\<close>, \<open>y = [0, 1]\<close>:
  the two nodes are distinct floats closer than \<open>1e-15\<close>, and at the query point \<open>1\<close>
  neither variant yields a value. Each raises its division-by-zero \<^verbatim>\<open>ValueError\<close>.
\<close>

theorem newton_lagrange_guard_counterexample:
  "validate_input [1, 1 + 1 / 2 ^ 52] [0, 1] = Inr ()
   \<and> newton_interpolate [1, 1 + 1 / 2 ^ 52] [0, 1] [1] = Inl (ValueError (DivZeroNewton 1 0))
   \<and> lagrange_interpolate [1, 1 + 1 / 2 ^ 52] [0, 1] [1] = Inl (ValueError (DivZeroLagrange 0 1))"
proof -
  define u :: real where "u = 1 / 2 ^ 52"
  have pos: "0 < u" by (simp add: u_def)
  have small: "u < 1 / 10 ^ 15" by (simp add: u_def)
  have v: "validate_input [1, 1 + u] [0, 1] = Inr ()"
    using pos by (simp add: validate_input_ok)
  have sp: "sort_points [1, 1 + u] [0, 1] = ([1, 1 + u], [0, 1])"
    using pos by (simp add: sort_points_def)
  have n: "newton_interpolate [1, 1 + u] [0, 1] [1] = Inl (ValueError (DivZeroNewton 1 0))"
    using pos small
    by (simp add: newton_interpolate_def newton_divided_diffs_def v sp newton_column_def
        newton_entry_def Let_def upt_rec del: One_nat_def)
  have l: "lagrange_interpolate [1, 1 + u] [0, 1] [1] = Inl (ValueError (DivZeroLagrange 0 1))"
    using pos small
    by (simp add: lagrange_interpolate_def v lagrange_query_def lagrange_term_def
        lagrange_factor_def Let_def upt_rec del: One_nat_def)
  from v n l show ?thesis unfolding u_def by simp
qed

end
